theory Spec2Isabelle
  imports Main
begin

section \<open>Python text primitives\<close>

text \<open>
  A Python \<open>str\<close> is modelled as a \<open>string\<close>: one \<open>char\<close> per code point, for the code
  points U+0000 to U+00FF. The character classes below are Python's, restricted to
  that range.
\<close>

definition nl :: char where
  "nl = CHR ''\<newline>''"

text \<open>\<open>str.isspace\<close> on one character: U+0009..U+000D, U+001C..U+0020, U+0085, U+00A0.\<close>

definition isspace :: "char \<Rightarrow> bool" where
  "isspace c =
     (let n = (of_char c :: nat)
      in (9 \<le> n \<and> n \<le> 13) \<or> (28 \<le> n \<and> n \<le> 32) \<or> n = 133 \<or> n = 160)"

text \<open>\<open>s.strip()\<close>: leading and trailing whitespace removed.\<close>

definition strip :: "string \<Rightarrow> string" where
  "strip s = rev (dropWhile isspace (rev (dropWhile isspace s)))"

text \<open>\<open>s.lower()\<close>: A..Z and the upper-case letters of U+00C0..U+00DE (not U+00D7).\<close>

definition lower_char :: "char \<Rightarrow> char" where
  "lower_char c =
     (let n = (of_char c :: nat)
      in if (65 \<le> n \<and> n \<le> 90) \<or> (192 \<le> n \<and> n \<le> 222 \<and> n \<noteq> 215)
         then char_of (n + 32) else c)"

definition lower :: "string \<Rightarrow> string" where
  "lower s = map lower_char s"

text \<open>\<open>s.startswith(p)\<close>.\<close>

definition startswith :: "string \<Rightarrow> string \<Rightarrow> bool" where
  "startswith s p = (take (length p) s = p)"

text \<open>\<open>sub in s\<close> for two strings: \<open>sub\<close> occurs in \<open>s\<close> as a contiguous run.\<close>

fun contains :: "string \<Rightarrow> string \<Rightarrow> bool" where
  "contains sub [] = (sub = [])"
| "contains sub (c # cs) = (startswith (c # cs) sub \<or> contains sub cs)"

text \<open>\<open>s.split(sep)\<close> for a one-character separator: always at least one piece.\<close>

fun split_acc :: "char \<Rightarrow> string \<Rightarrow> string \<Rightarrow> string list" where
  "split_acc sep cur [] = [cur]"
| "split_acc sep cur (c # cs) =
     (if c = sep then cur # split_acc sep [] cs else split_acc sep (cur @ [c]) cs)"

definition split :: "string \<Rightarrow> char \<Rightarrow> string list" where
  "split s sep = split_acc sep [] s"

text \<open>\<open>sep.join(pieces)\<close>.\<close>

fun join :: "string \<Rightarrow> string list \<Rightarrow> string" where
  "join sep [] = []"
| "join sep [x] = x"
| "join sep (x # y # ys) = x @ sep @ join sep (y # ys)"

text \<open>The class \<open>\d\<close> of the \<open>re\<close> module (decimal digits; in this range 0 to 9).\<close>

definition isdigit :: "char \<Rightarrow> bool" where
  "isdigit c = (let n = (of_char c :: nat) in 48 \<le> n \<and> n \<le> 57)"

section \<open>convert_markdown_to_html\<close>

text \<open>
  Each \<open>re.sub\<close> of the function is written out as the substitution its pattern performs.

  \<open>re.sub(r'^### (.+)$', r'<h3 ...>\1</h3>', text, flags=re.MULTILINE)\<close> and its two
  siblings: \<open>^\<close> matches at the start of a line, \<open>.\<close> matches every character but the
  newline and \<open>$\<close> matches at the end of a line, so a match is a whole line that
  starts with the marker and has at least one more character; such a line is replaced
  by its remainder between the opening and the closing tag.
\<close>

definition sub_header :: "string \<Rightarrow> string \<Rightarrow> string \<Rightarrow> string \<Rightarrow> string" where
  "sub_header marker open_tag close_tag text =
     join [nl]
       (map (\<lambda>line.
               if startswith line marker \<and> length marker < length line
               then open_tag @ drop (length marker) line @ close_tag
               else line)
          (split text nl))"

text \<open>
  The lazy group \<open>(.*?)\<close> followed by the closing delimiter: the shortest run of
  characters other than the newline after which the delimiter stands. The result is
  the run and the text after the closing delimiter, or \<open>None\<close> when the line ends first.
\<close>

fun find_close :: "string \<Rightarrow> string \<Rightarrow> (string \<times> string) option" where
  "find_close delim [] = (if delim = [] then Some ([], []) else None)"
| "find_close delim (c # cs) =
     (if startswith (c # cs) delim then Some ([], drop (length delim) (c # cs))
      else if c = nl then None
      else (case find_close delim cs of
              None \<Rightarrow> None
            | Some (content, rest) \<Rightarrow> Some (c # content, rest)))"

text \<open>
  \<open>re.sub(r'\*\*(.*?)\*\*', r'<b>\1</b>', text)\<close> and its siblings for \<open>*\<close> and the
  backquote: the text is scanned from the left; at an opening delimiter that has a
  closing delimiter on the same line the span is replaced and the scan goes on after
  the closing delimiter; everywhere else one character is copied. No pattern of the
  source has an empty delimiter; the first equation is there for totality only.
\<close>

function sub_span :: "string \<Rightarrow> string \<Rightarrow> string \<Rightarrow> string \<Rightarrow> string" where
  "sub_span [] open_tag close_tag text = text"
| "sub_span (d # ds) open_tag close_tag [] = []"
| "sub_span (d # ds) open_tag close_tag (c # cs) =
     (if startswith (c # cs) (d # ds) then
        (case find_close (d # ds) (drop (length (d # ds)) (c # cs)) of
           Some (content, rest) \<Rightarrow> open_tag @ content @ close_tag @ sub_span (d # ds) open_tag close_tag rest
         | None \<Rightarrow> c # sub_span (d # ds) open_tag close_tag cs)
      else c # sub_span (d # ds) open_tag close_tag cs)"
  by pat_completeness auto
termination
proof -
  have shorter: "length rest \<le> length s"
    if "find_close delim s = Some (content, rest)" for delim s content rest
    using that
    by (induction s arbitrary: content) (auto split: if_splits option.splits)
  show ?thesis
    by (relation "measure (\<lambda>(delim, open_tag, close_tag, text). length text)")
      (auto dest!: shorter)
qed

text \<open>\<open>text.replace('\n', '<br>')\<close>.\<close>

definition replace_newlines :: "string \<Rightarrow> string" where
  "replace_newlines text = concat (map (\<lambda>c. if c = nl then ''<br>'' else [c]) text)"

text \<open>
  The tail \<open>\s+(.+)$\<close> of the two list patterns, on a text without newline: the run of
  whitespace is as long as possible and the group is all that follows it; when nothing
  follows, the run gives its last character to the group. The result is the group.
\<close>

definition spaces_then_rest :: "string \<Rightarrow> string option" where
  "spaces_then_rest s =
     (let run = takeWhile isspace s; rest = dropWhile isspace s
      in if run = [] then None
         else if rest \<noteq> [] then Some rest
         else if 2 \<le> length run then Some [last run]
         else None)"

text \<open>
  \<open>re.sub(r'^(\d+)\.\s+(.+)$', r'<div ...><b>\1.</b> \2</div>', text, flags=re.MULTILINE)\<close>
  runs after the newlines were replaced, so the text is one line and the pattern can
  match at its start only, up to its end.
\<close>

definition sub_numbered :: "string \<Rightarrow> string" where
  \<open>sub_numbered text =
     (let digits = takeWhile isdigit text; rest = dropWhile isdigit text
      in if digits \<noteq> [] \<and> startswith rest ''.'' then
           (case spaces_then_rest (drop 1 rest) of
              Some body \<Rightarrow>
                ''<div style="margin: 4px 0;"><b>'' @ digits @ ''.</b> '' @ body @ ''</div>''
            | None \<Rightarrow> text)
         else text)\<close>

text \<open>
  The bullet U+2022 lies outside the range of \<open>char\<close>: no character of a text equals
  it, and where the replacement writes it the model writes its three UTF-8 bytes.
\<close>

definition bullet :: string where
  "bullet = [CHR 0xE2, CHR 0x80, CHR 0xA2]"

text \<open>
  \<open>re.sub(r'^[\<bullet>\-\*]\s+(.+)$', r'<div ...>\<bullet> \1</div>', text, flags=re.MULTILINE)\<close>, again
  on the one line that is left.
\<close>

definition sub_bullet :: "string \<Rightarrow> string" where
  \<open>sub_bullet text =
     (case text of
        [] \<Rightarrow> text
      | c # cs \<Rightarrow>
          if c = CHR ''-'' \<or> c = CHR ''*'' then
            (case spaces_then_rest cs of
               Some body \<Rightarrow> ''<div style="margin: 4px 0;">'' @ bullet @ '' '' @ body @ ''</div>''
             | None \<Rightarrow> text)
          else text)\<close>

definition convert_markdown_to_html :: "string \<Rightarrow> string" where
  \<open>convert_markdown_to_html text0 =
     (let text = sub_header ''### ''
            ''<h3 style="font-size: 16px; font-weight: bold; margin: 12px 0 8px 0; color: #6c5ce7;">''
            ''</h3>'' text0;
          text = sub_header ''## ''
            ''<h2 style="font-size: 18px; font-weight: bold; margin: 16px 0 10px 0; color: #6c5ce7;">''
            ''</h2>'' text;
          text = sub_header ''# ''
            ''<h1 style="font-size: 20px; font-weight: bold; margin: 20px 0 12px 0; color: #6c5ce7;">''
            ''</h1>'' text;
          text = sub_span ''**'' ''<b>'' ''</b>'' text;
          text = sub_span ''*'' ''<i>'' ''</i>'' text;
          text = sub_span ''`''
            ''<code style="background-color: rgba(128,128,128,0.2); padding: 2px 4px; border-radius: 3px; font-family: monospace;">''
            ''</code>'' text;
          text = replace_newlines text;
          text = sub_numbered text;
          text = sub_bullet text
      in text)\<close>

section \<open>FlashcardGenerationDialog.parse_flashcards\<close>

text \<open>
  The parser returns a list of dicts: \<open>{'front': f, 'back': b}\<close> in the basic branch and
  \<open>{'content': c}\<close> in the cloze branch.
\<close>

datatype flashcard = Basic string string | Cloze string

text \<open>
  The cloze loop (\<open>for line in lines\<close>), with the loop variables \<open>flashcards\<close> and
  \<open>current_card\<close> as arguments. The result is the pair of both after the last line.
\<close>

fun cloze_loop :: "string list \<Rightarrow> flashcard list \<Rightarrow> string \<Rightarrow> flashcard list \<times> string" where
  "cloze_loop [] flashcards current_card = (flashcards, current_card)"
| "cloze_loop (raw # lines) flashcards current_card =
     (let line = strip raw in
      if line \<noteq> [] \<and> contains ''{{c'' line then
        cloze_loop lines
          (if current_card \<noteq> [] then flashcards @ [Cloze (strip current_card)] else flashcards)
          line
      else if line \<noteq> [] \<and> current_card \<noteq> [] then
        cloze_loop lines flashcards (current_card @ [nl] @ line)
      else if line = [] \<and> current_card \<noteq> [] then
        cloze_loop lines (flashcards @ [Cloze (strip current_card)]) []
      else cloze_loop lines flashcards current_card)"

definition parse_cloze :: "string \<Rightarrow> flashcard list" where
  "parse_cloze text =
     (case cloze_loop (split text nl) [] [] of
        (flashcards, current_card) \<Rightarrow>
          if current_card \<noteq> [] then flashcards @ [Cloze (strip current_card)] else flashcards)"

text \<open>
  The basic loop, with the loop variables \<open>flashcards\<close>, \<open>current_front\<close>,
  \<open>current_back\<close>, \<open>in_front\<close> and \<open>in_back\<close> as arguments.
\<close>

fun basic_loop ::
  "string list \<Rightarrow> flashcard list \<Rightarrow> string \<Rightarrow> string \<Rightarrow> bool \<Rightarrow> bool
     \<Rightarrow> flashcard list \<times> string \<times> string" where
  "basic_loop [] flashcards current_front current_back in_front in_back =
     (flashcards, current_front, current_back)"
| "basic_loop (raw # lines) flashcards current_front current_back in_front in_back =
     (let line = strip raw in
      if startswith (lower line) ''front:'' then
        basic_loop lines
          (if current_front \<noteq> [] \<and> current_back \<noteq> []
           then flashcards @ [Basic (strip current_front) (strip current_back)]
           else flashcards)
          (strip (drop 6 line)) [] True False
      else if startswith (lower line) ''back:'' then
        basic_loop lines flashcards current_front (strip (drop 5 line)) False True
      else if line \<noteq> [] \<and> in_front then
        basic_loop lines flashcards (current_front @ [nl] @ line) current_back in_front in_back
      else if line \<noteq> [] \<and> in_back then
        basic_loop lines flashcards current_front (current_back @ [nl] @ line) in_front in_back
      else if line = [] \<and> current_front \<noteq> [] \<and> current_back \<noteq> [] then
        basic_loop lines
          (flashcards @ [Basic (strip current_front) (strip current_back)])
          [] [] False False
      else basic_loop lines flashcards current_front current_back in_front in_back)"

definition parse_basic :: "string \<Rightarrow> flashcard list" where
  "parse_basic text =
     (case basic_loop (split text nl) [] [] [] False False of
        (flashcards, current_front, current_back) \<Rightarrow>
          if current_front \<noteq> [] \<and> current_back \<noteq> []
          then flashcards @ [Basic (strip current_front) (strip current_back)]
          else flashcards)"

text \<open>
  \<open>parse_flashcards\<close> reads the grammar from the format selector's current text:
  the cloze branch runs when \<open>"cloze" in self.format_combo.currentText().lower()\<close>.
\<close>

definition parse_flashcards :: "string \<Rightarrow> string \<Rightarrow> flashcard list" where
  "parse_flashcards format_text text =
     (if contains ''cloze'' (lower format_text) then parse_cloze text else parse_basic text)"

section \<open>StreamingWorker\<close>

subsection \<open>Exceptions and decoded JSON\<close>

text \<open>
  The exceptions the worker can meet. \<open>OtherError\<close> stands for the failures of the
  environment (\<open>urlopen\<close>, the socket, the host application) and carries a description.
\<close>

datatype exn =
    JSONDecodeError
  | UnicodeDecodeError
  | TypeError
  | AttributeError
  | KeyError
  | IndexError
  | OtherError string

text \<open>
  A text shown to the user: a literal, \<open>str(e)\<close> of an exception, or an f-string that
  puts a literal in front of another text.
\<close>

datatype message = Literal string | Str exn | Prefixed string message

datatype pyfloat = Finite int int | Infinite bool | NaN

text \<open>
  What \<open>json.loads\<close> returns: \<open>None\<close>, \<open>bool\<close>, \<open>int\<close>, \<open>float\<close>, \<open>str\<close>, \<open>list\<close> or
  \<open>dict\<close>. A dict is given by its items, one per key.
\<close>

datatype json =
    JNull
  | JBool bool
  | JInt int
  | JFloat pyfloat
  | JStr string
  | JArr "json list"
  | JObj "(string \<times> json) list"

text \<open>An exception of the first step ends the computation, as a \<open>raise\<close> does.\<close>

definition and_then :: "exn + 'a \<Rightarrow> ('a \<Rightarrow> exn + 'b) \<Rightarrow> exn + 'b" where
  "and_then r f = (case r of Inl e \<Rightarrow> Inl e | Inr x \<Rightarrow> f x)"

text \<open>\<open>key in obj\<close> for a string key.\<close>

fun py_in :: "string \<Rightarrow> json \<Rightarrow> exn + bool" where
  "py_in key (JObj items) = Inr (key \<in> set (map fst items))"
| "py_in key (JArr xs) = Inr (JStr key \<in> set xs)"
| "py_in key (JStr s) = Inr (contains key s)"
| "py_in key JNull = Inl TypeError"
| "py_in key (JBool b) = Inl TypeError"
| "py_in key (JInt i) = Inl TypeError"
| "py_in key (JFloat x) = Inl TypeError"

text \<open>\<open>obj[key]\<close> for a string key.\<close>

fun py_getitem :: "json \<Rightarrow> string \<Rightarrow> exn + json" where
  "py_getitem (JObj items) key =
     (case map_of items key of Some v \<Rightarrow> Inr v | None \<Rightarrow> Inl KeyError)"
| "py_getitem (JArr xs) key = Inl TypeError"
| "py_getitem (JStr s) key = Inl TypeError"
| "py_getitem JNull key = Inl TypeError"
| "py_getitem (JBool b) key = Inl TypeError"
| "py_getitem (JInt i) key = Inl TypeError"
| "py_getitem (JFloat x) key = Inl TypeError"

text \<open>\<open>len(obj)\<close>.\<close>

fun py_len :: "json \<Rightarrow> exn + nat" where
  "py_len (JObj items) = Inr (length (remdups (map fst items)))"
| "py_len (JArr xs) = Inr (length xs)"
| "py_len (JStr s) = Inr (length s)"
| "py_len JNull = Inl TypeError"
| "py_len (JBool b) = Inl TypeError"
| "py_len (JInt i) = Inl TypeError"
| "py_len (JFloat x) = Inl TypeError"

text \<open>\<open>obj[0]\<close>. The keys of a decoded dict are strings, so \<open>0\<close> is never one of them.\<close>

fun py_getitem0 :: "json \<Rightarrow> exn + json" where
  "py_getitem0 (JArr []) = Inl IndexError"
| "py_getitem0 (JArr (x # xs)) = Inr x"
| "py_getitem0 (JStr []) = Inl IndexError"
| "py_getitem0 (JStr (c # cs)) = Inr (JStr [c])"
| "py_getitem0 (JObj items) = Inl KeyError"
| "py_getitem0 JNull = Inl TypeError"
| "py_getitem0 (JBool b) = Inl TypeError"
| "py_getitem0 (JInt i) = Inl TypeError"
| "py_getitem0 (JFloat x) = Inl TypeError"

text \<open>\<open>obj.get(key, default)\<close>: a method of dicts only.\<close>

fun py_get :: "json \<Rightarrow> string \<Rightarrow> json \<Rightarrow> exn + json" where
  "py_get (JObj items) key fallback =
     Inr (case map_of items key of Some v \<Rightarrow> v | None \<Rightarrow> fallback)"
| "py_get (JArr xs) key fallback = Inl AttributeError"
| "py_get (JStr s) key fallback = Inl AttributeError"
| "py_get JNull key fallback = Inl AttributeError"
| "py_get (JBool b) key fallback = Inl AttributeError"
| "py_get (JInt i) key fallback = Inl AttributeError"
| "py_get (JFloat x) key fallback = Inl AttributeError"

text \<open>\<open>text += new_content\<close> for a string \<open>text\<close>.\<close>

fun py_concat :: "string \<Rightarrow> json \<Rightarrow> exn + string" where
  "py_concat text (JStr s) = Inr (text @ s)"
| "py_concat text (JArr xs) = Inl TypeError"
| "py_concat text (JObj items) = Inl TypeError"
| "py_concat text JNull = Inl TypeError"
| "py_concat text (JBool b) = Inl TypeError"
| "py_concat text (JInt i) = Inl TypeError"
| "py_concat text (JFloat x) = Inl TypeError"

subsection \<open>StreamingWorker.run\<close>

datatype signal =
    chunk_received string
  | response_finished string
  | error_occurred message

text \<open>
  The statements under \<open>chunk_data = json.loads(line)\<close>. The result is the new
  accumulated text when a chunk is emitted, \<open>None\<close> when the event carries no content,
  and the exception when one of the steps raises.
\<close>

definition on_chunk_data :: "json \<Rightarrow> string \<Rightarrow> exn + string option" where
  "on_chunk_data chunk_data accumulated_text =
     and_then (py_in ''choices'' chunk_data) (\<lambda>has_choices.
       if \<not> has_choices then Inr None
       else
         and_then (py_getitem chunk_data ''choices'') (\<lambda>choices.
         and_then (py_len choices) (\<lambda>n.
           if \<not> 0 < n then Inr None
           else
             and_then (py_getitem0 choices) (\<lambda>choice.
             and_then (py_get choice ''delta'' (JObj [])) (\<lambda>delta.
             and_then (py_in ''content'' delta) (\<lambda>has_content.
               if \<not> has_content then Inr None
               else
                 and_then (py_getitem delta ''content'') (\<lambda>new_content.
                 and_then (py_concat accumulated_text new_content) (\<lambda>text.
                   Inr (Some text)))))))))"

text \<open>
  One line of the response body as \<open>for line in response\<close> yields it: bytes that
  \<open>decode('utf-8')\<close> turns into a text, or bytes on which it raises.
\<close>

datatype raw_line = Decoded string | Undecodable

text \<open>
  The loop \<open>for line in response\<close>. The arguments are \<open>json.loads\<close>, the lines still
  to come, how the body ends after them (\<open>None\<close>: end of the body; \<open>Some e\<close>: reading
  raises \<open>e\<close>) and the accumulated text. The result is the list of signals emitted and
  how the loop ends: with the accumulated text, or with an exception.
\<close>

fun read_stream ::
  "(string \<Rightarrow> exn + json) \<Rightarrow> raw_line list \<Rightarrow> exn option \<Rightarrow> string
     \<Rightarrow> signal list \<times> (exn + string)" where
  "read_stream loads [] failure accumulated_text =
     ([], case failure of None \<Rightarrow> Inr accumulated_text | Some e \<Rightarrow> Inl e)"
| "read_stream loads (Undecodable # rest) failure accumulated_text =
     ([], Inl UnicodeDecodeError)"
| "read_stream loads (Decoded raw # rest) failure accumulated_text =
     (let line = strip raw in
      if startswith line ''data: '' then
        (let line = drop 6 line in
         if line = ''[DONE]'' then ([], Inr accumulated_text)
         else if line \<noteq> [] then
           (case loads line of
              Inl e \<Rightarrow>
                if e = JSONDecodeError then read_stream loads rest failure accumulated_text
                else ([], Inl e)
            | Inr chunk_data \<Rightarrow>
                (case on_chunk_data chunk_data accumulated_text of
                   Inl e \<Rightarrow> ([], Inl e)
                 | Inr None \<Rightarrow> read_stream loads rest failure accumulated_text
                 | Inr (Some text) \<Rightarrow>
                     (case read_stream loads rest failure text of
                        (emitted, ending) \<Rightarrow> (chunk_received text # emitted, ending))))
         else read_stream loads rest failure accumulated_text)
      else read_stream loads rest failure accumulated_text)"

text \<open>
  \<open>run\<close>, from \<open>urlopen\<close> on: \<open>urlopen\<close> raises, or gives a response whose body is a
  list of lines and an ending. The result is the list of signals the worker emits,
  in order. (An exception raised while the request is built takes the same
  \<open>except\<close> branch as one raised by \<open>urlopen\<close>.)
\<close>

definition run ::
  "(string \<Rightarrow> exn + json) \<Rightarrow> exn + raw_line list \<times> exn option \<Rightarrow> signal list" where
  "run loads urlopen =
     (case urlopen of
        Inl e \<Rightarrow> [error_occurred (Str e)]
      | Inr (lines, failure) \<Rightarrow>
          (case read_stream loads lines failure [] of
             (emitted, Inl e) \<Rightarrow> emitted @ [error_occurred (Str e)]
           | (emitted, Inr accumulated_text) \<Rightarrow>
               emitted @
               [if accumulated_text \<noteq> [] then response_finished accumulated_text
                else error_occurred (Literal ''No response received'')]))"

section \<open>AIFloatingChatWindow\<close>

text \<open>
  The table \<open>chat_history\<close> of \<open>ChatDatabase\<close>: the rows that \<open>save_message\<close> has
  inserted, in the order of their insertion (the order of their \<open>id\<close>), each given by
  \<open>card_id\<close>, \<open>role\<close> and \<open>content\<close>. The column \<open>timestamp\<close>, which \<open>save_message\<close>
  reads from the clock, is not kept, and the query \<open>get_chat_history\<close>, which orders
  the rows of a card by that column, is not modelled: what is stated below is stated
  of the rows saved.
\<close>

type_synonym chat_history = "(int \<times> string \<times> string) list"

definition save_message :: "chat_history \<Rightarrow> int \<Rightarrow> string \<Rightarrow> string \<Rightarrow> chat_history" where
  "save_message db cid role content = db @ [(cid, role, content)]"

text \<open>What the label of the streamed answer shows.\<close>

datatype label = Typing_indicator | Html string

text \<open>
  The state of one chat window: the card, the database, the text and the enabled flag
  of \<open>message_input\<close>, the enabled flag of \<open>send_button\<close>, the label
  \<open>current_ai_bubble\<close> (\<open>None\<close> as in the source), and the number of
  \<open>StreamingWorker\<close> threads this window has started that have not yet delivered
  their last signal.
\<close>

record window =
  card_id :: int
  chat_db :: chat_history
  message_input :: string
  message_input_enabled :: bool
  send_button_enabled :: bool
  current_ai_bubble :: "label option"
  workers :: nat

text \<open>
  \<open>send_message\<close>, with \<open>create_streaming_ai_bubble\<close> and \<open>get_ai_response_streaming\<close>
  in place: the latter creates one worker and starts it.
\<close>

definition send_message :: "window \<Rightarrow> window" where
  "send_message w =
     (let user_message = strip (message_input w) in
      if user_message = [] then w
      else w\<lparr>message_input := [],
              chat_db := save_message (chat_db w) (card_id w) ''user'' user_message,
              send_button_enabled := False,
              message_input_enabled := False,
              current_ai_bubble := Some Typing_indicator,
              workers := workers w + 1\<rparr>)"

definition update_streaming_bubble :: "window \<Rightarrow> string \<Rightarrow> window" where
  "update_streaming_bubble w text =
     (if current_ai_bubble w \<noteq> None
      then w\<lparr>current_ai_bubble := Some (Html (convert_markdown_to_html text))\<rparr>
      else w)"

text \<open>
  \<open>finish_streaming_response\<close> and \<open>handle_streaming_error\<close>: the label is released
  (the last text written to it is display only and not kept), the answer, if there
  is one, is saved, and the input is enabled again.
\<close>

definition finish_streaming_response :: "window \<Rightarrow> string \<Rightarrow> window" where
  "finish_streaming_response w final_text =
     w\<lparr>current_ai_bubble := None,
       chat_db := save_message (chat_db w) (card_id w) ''assistant'' final_text,
       send_button_enabled := True,
       message_input_enabled := True\<rparr>"

definition handle_streaming_error :: "window \<Rightarrow> message \<Rightarrow> window" where
  "handle_streaming_error w error_message =
     w\<lparr>current_ai_bubble := None,
       send_button_enabled := True,
       message_input_enabled := True\<rparr>"

text \<open>
  The three signals of a worker are connected to the three slots above. The worker's
  thread ends with its last signal, \<open>response_finished\<close> or \<open>error_occurred\<close>.
\<close>

fun deliver :: "window \<Rightarrow> signal \<Rightarrow> window" where
  "deliver w (chunk_received text) = update_streaming_bubble w text"
| "deliver w (response_finished final_text) =
     finish_streaming_response (w\<lparr>workers := workers w - 1\<rparr>) final_text"
| "deliver w (error_occurred error_message) =
     handle_streaming_error (w\<lparr>workers := workers w - 1\<rparr>) error_message"

text \<open>
  What can happen to a window: the user edits the input line, clicks the send button
  or presses return in the input line, or a running worker delivers a signal.
  \<open>send_message\<close> is connected to \<open>send_button.clicked\<close> and
  \<open>message_input.returnPressed\<close> and is called from nowhere else; a disabled widget
  takes no input from the user, and a signal comes from a running worker only.
\<close>

datatype event = Edit_input string | Click_send | Return_pressed | Worker_signal signal

fun dispatch :: "window \<Rightarrow> event \<Rightarrow> window" where
  "dispatch w (Edit_input text) =
     (if message_input_enabled w then w\<lparr>message_input := text\<rparr> else w)"
| "dispatch w Click_send = (if send_button_enabled w then send_message w else w)"
| "dispatch w Return_pressed = (if message_input_enabled w then send_message w else w)"
| "dispatch w (Worker_signal s) = (if workers w = 0 then w else deliver w s)"

text \<open>The window as \<open>__init__\<close> leaves it, for a card and the database found.\<close>

definition new_window :: "int \<Rightarrow> chat_history \<Rightarrow> window" where
  "new_window cid db =
     \<lparr>card_id = cid, chat_db = db, message_input = [], message_input_enabled = True,
      send_button_enabled = True, current_ai_bubble = None, workers = 0\<rparr>"

section \<open>AIChatWindow (ai\_chat\_simple)\<close>

text \<open>
  \<open>get_ai_response\<close> of the window without streaming: the argument is what the
  \<open>try\<close> block comes to, the content of the answer or \<open>str(e)\<close> of the exception
  raised; the \<open>except\<close> branch returns a text as well.
\<close>

definition get_ai_response :: "string + string \<Rightarrow> string" where
  "get_ai_response outcome =
     (case outcome of
        Inr content \<Rightarrow> strip content
      | Inl description \<Rightarrow>
          ''Sorry, I couldn'' @ [CHR 0x27] @ ''t process your request right now. Error: ''
            @ description)"

record simple_window =
  simple_card_id :: int
  simple_chat_db :: chat_history
  simple_message_input :: string
  simple_send_button_enabled :: bool

text \<open>
  \<open>AIChatWindow.send_message\<close>: the request is made inside the call, between the
  two calls of \<open>save_message\<close>. What the call appends to the display is left out.
\<close>

definition simple_send_message :: "simple_window \<Rightarrow> string + string \<Rightarrow> simple_window" where
  "simple_send_message w outcome =
     (let user_message = strip (simple_message_input w) in
      if user_message = [] then w
      else
        (let db = save_message (simple_chat_db w) (simple_card_id w) ''user'' user_message;
             ai_response = get_ai_response outcome;
             db = (if ai_response \<noteq> []
                   then save_message db (simple_card_id w) ''assistant'' ai_response
                   else db)
         in w\<lparr>simple_message_input := [], simple_chat_db := db,
               simple_send_button_enabled := True\<rparr>))"

section \<open>FlashcardGenerationDialog.create_flashcards\<close>

text \<open>A note of the host: its tags and its fields, by position.\<close>

record anki_note =
  note_tags :: "string list"
  note_fields :: "string list"

text \<open>The notes of the collection with their decks, in the order they were added.\<close>

type_synonym collection = "(anki_note \<times> int) list"

text \<open>
  What the host application gives to one call of \<open>create_flashcards\<close>: the tags of
  the original note and the deck of the original card; what
  \<open>get_or_create_addon_note_type\<close> comes to, an exception or a note type, given by
  the number of its fields; the summary that \<open>generate_conversation_summary_sync\<close>
  leaves in \<open>self.conversation_summary\<close> (it catches its own exceptions); and for
  \<open>mw.col.add_note\<close> the exception it raises for a note on a collection, if any.
\<close>

record host =
  original_tags :: "string list"
  deck_id :: int
  note_type :: "exn + nat"
  conversation_summary :: string
  add_note_raises :: "collection \<Rightarrow> anki_note \<Rightarrow> exn option"

text \<open>
  The dialog: the generated text, the current text of the format selector, the
  check boxes, and the items of \<open>preview_layout\<close>: for each item its widget, if it has
  one, given by the texts of its \<open>QTextEdit\<close> children.
\<close>

record dialog =
  generated_flashcards :: string
  format_text :: string
  card_checkboxes :: "bool list"
  preview_layout :: "string list option list"

datatype report = showWarning message | showInfo_created nat

definition get_current_card_content :: "string \<Rightarrow> string list \<Rightarrow> flashcard \<Rightarrow> flashcard" where
  "get_current_card_content fmt text_edits original_card =
     (if contains ''cloze'' (lower fmt) then
        (case text_edits of [] \<Rightarrow> original_card | t # ts \<Rightarrow> Cloze t)
      else
        (case text_edits of t0 # t1 # ts \<Rightarrow> Basic t0 t1 | _ \<Rightarrow> original_card))"

text \<open>
  The loop that collects \<open>selected_flashcards\<close>, from index \<open>i\<close> on.
  \<open>preview_layout.itemAt(i)\<close> is \<open>None\<close> beyond the last item, and \<open>.widget()\<close> then
  raises.
\<close>

fun select_loop :: "dialog \<Rightarrow> nat \<Rightarrow> flashcard list \<Rightarrow> exn + flashcard list" where
  "select_loop d i [] = Inr []"
| "select_loop d i (flashcard # rest) =
     (if i < length (card_checkboxes d) \<and> card_checkboxes d ! i then
        (if i < length (preview_layout d) then
           (let chosen = (case preview_layout d ! i of
                            Some text_edits \<Rightarrow>
                              get_current_card_content (format_text d) text_edits flashcard
                          | None \<Rightarrow> flashcard)
            in and_then (select_loop d (i + 1) rest) (\<lambda>others. Inr (chosen # others)))
         else Inl AttributeError)
      else select_loop d (i + 1) rest)"

text \<open>\<open>xs[i] = v\<close> on a list.\<close>

definition setitem :: "string list \<Rightarrow> nat \<Rightarrow> string \<Rightarrow> exn + string list" where
  "setitem xs i v = (if i < length xs then Inr (xs[i := v]) else Inl IndexError)"

text \<open>\<open>flashcard['content']\<close>, \<open>flashcard['front']\<close> and \<open>flashcard['back']\<close>.\<close>

fun card_content :: "flashcard \<Rightarrow> exn + string" where
  "card_content (Cloze c) = Inr c"
| "card_content (Basic f b) = Inl KeyError"

fun card_front :: "flashcard \<Rightarrow> exn + string" where
  "card_front (Basic f b) = Inr f"
| "card_front (Cloze c) = Inl KeyError"

fun card_back :: "flashcard \<Rightarrow> exn + string" where
  "card_back (Basic f b) = Inr b"
| "card_back (Cloze c) = Inl KeyError"

text \<open>
  The body of the inner \<open>try\<close> up to \<open>add_note\<close>: a new note of the note type with the
  tags of the original note and its three fields set.
\<close>

definition fill_note :: "host \<Rightarrow> string \<Rightarrow> nat \<Rightarrow> flashcard \<Rightarrow> exn + anki_note" where
  "fill_note h fmt field_count flashcard =
     (let fs = replicate field_count [] in
      if contains ''cloze'' (lower fmt) then
        and_then (card_content flashcard) (\<lambda>c.
        and_then (setitem fs 0 c) (\<lambda>fs.
        and_then (setitem fs 1 []) (\<lambda>fs.
        and_then (setitem fs 2 (conversation_summary h)) (\<lambda>fs.
          Inr \<lparr>note_tags = original_tags h, note_fields = fs\<rparr>))))
      else
        and_then (card_front flashcard) (\<lambda>f.
        and_then (setitem fs 0 f) (\<lambda>fs.
        and_then (card_back flashcard) (\<lambda>b.
        and_then (setitem fs 1 b) (\<lambda>fs.
        and_then (setitem fs 2 (conversation_summary h)) (\<lambda>fs.
          Inr \<lparr>note_tags = original_tags h, note_fields = fs\<rparr>))))))"

text \<open>The whole body of the inner \<open>try\<close>: the note is built and added to the deck.\<close>

definition create_note :: "host \<Rightarrow> string \<Rightarrow> nat \<Rightarrow> collection \<Rightarrow> flashcard \<Rightarrow> exn + collection" where
  "create_note h fmt field_count col flashcard =
     and_then (fill_note h fmt field_count flashcard) (\<lambda>n.
       case add_note_raises h col n of
         Some e \<Rightarrow> Inl e
       | None \<Rightarrow> Inr (col @ [(n, deck_id h)]))"

text \<open>
  The loop over \<open>selected_flashcards\<close> with its \<open>try\<close> and \<open>except Exception: continue\<close>;
  the loop variables are the collection and \<open>created_count\<close>.
\<close>

fun create_loop ::
  "host \<Rightarrow> string \<Rightarrow> nat \<Rightarrow> flashcard list \<Rightarrow> collection \<Rightarrow> nat \<Rightarrow> collection \<times> nat" where
  "create_loop h fmt field_count [] col created_count = (col, created_count)"
| "create_loop h fmt field_count (flashcard # rest) col created_count =
     (case create_note h fmt field_count col flashcard of
        Inl e \<Rightarrow> create_loop h fmt field_count rest col created_count
      | Inr col' \<Rightarrow> create_loop h fmt field_count rest col' (created_count + 1))"

text \<open>
  \<open>create_flashcards\<close>: the message shown at the end and the collection left behind.
  The texts of the button and \<open>processEvents\<close> are left out; \<open>mw.col.save()\<close> and
  \<open>mw.requireReset()\<close> flush and refresh: they change no note and are taken to return.
\<close>

definition create_flashcards :: "host \<Rightarrow> dialog \<Rightarrow> collection \<Rightarrow> report \<times> collection" where
  "create_flashcards h d col =
     (if generated_flashcards d = [] then
        (showWarning (Literal ''No flashcards to create!''), col)
      else
        (case note_type h of
           Inl e \<Rightarrow> (showWarning (Prefixed ''Error creating flashcards: '' (Str e)), col)
         | Inr field_count \<Rightarrow>
             (let flashcards = parse_flashcards (format_text d) (generated_flashcards d) in
              if flashcards = [] then
                (showWarning
                   (Literal ''Could not parse any valid flashcards from the generated content.''),
                 col)
              else
                (case select_loop d 0 flashcards of
                   Inl e \<Rightarrow> (showWarning (Prefixed ''Error creating flashcards: '' (Str e)), col)
                 | Inr selected_flashcards \<Rightarrow>
                     if selected_flashcards = [] then
                       (showWarning (Literal ''No flashcards selected for creation!''), col)
                     else
                       (case create_loop h (format_text d) field_count selected_flashcards col 0 of
                          (col', created_count) \<Rightarrow>
                            if 0 < created_count then (showInfo_created created_count, col')
                            else
                              (showWarning
                                 (Literal
                                    ''Failed to create any flashcards. Please check your note type fields.''),
                               col'))))))"

section \<open>Notions of the specification\<close>

text \<open>
  A cloze span \<open>{{cN::...}}\<close>: the marker \<open>{{c\<close>, a numeric index of one digit or more,
  \<open>::\<close>, any content, and \<open>}}\<close>.
\<close>

definition cloze_span_at :: "string \<Rightarrow> bool" where
  "cloze_span_at s =
     (startswith s ''{{c'' \<and>
      (let index = takeWhile isdigit (drop 3 s); rest = dropWhile isdigit (drop 3 s)
       in index \<noteq> [] \<and> startswith rest ''::'' \<and> contains ''}}'' (drop 2 rest)))"

fun has_cloze_span :: "string \<Rightarrow> bool" where
  "has_cloze_span [] = False"
| "has_cloze_span (c # cs) = (cloze_span_at (c # cs) \<or> has_cloze_span cs)"

text \<open>
  A text without markup tokens: no line starts with a header marker, a numbered-list
  marker or a bullet marker, and the text has no asterisk (the marker of bold, of
  italic and of a bullet) and no backquote (the marker of code).
\<close>

definition header_marker :: "string \<Rightarrow> bool" where
  "header_marker line =
     (startswith line ''# '' \<or> startswith line ''## '' \<or> startswith line ''### '')"

definition list_marker :: "string \<Rightarrow> bool" where
  "list_marker line =
     (takeWhile isdigit line \<noteq> [] \<and>
      (case dropWhile isdigit line of
         c # s # rest \<Rightarrow> c = CHR ''.'' \<and> isspace s
       | _ \<Rightarrow> False))"

definition bullet_marker :: "string \<Rightarrow> bool" where
  "bullet_marker line =
     (case line of c # s # rest \<Rightarrow> (c = CHR ''-'' \<or> c = CHR ''*'') \<and> isspace s | _ \<Rightarrow> False)"

definition no_markup :: "string \<Rightarrow> bool" where
  "no_markup text =
     ((\<forall>line \<in> set (split text nl).
         \<not> header_marker line \<and> \<not> list_marker line \<and> \<not> bullet_marker line) \<and>
      CHR ''*'' \<notin> set text \<and> CHR ''`'' \<notin> set text)"

text \<open>The progress signal, as against the two signals that end a session.\<close>

fun is_chunk :: "signal \<Rightarrow> bool" where
  "is_chunk (chunk_received text) = True"
| "is_chunk (response_finished text) = False"
| "is_chunk (error_occurred description) = False"

text \<open>
  A decoder for the two payloads of the example of the specification; it rejects
  every other text. It stands in for \<open>json.loads\<close> where a concrete decoder is needed.
\<close>

definition example_loads :: "string \<Rightarrow> exn + json" where
  \<open>example_loads s =
     (if s = ''{"choices":[{"delta":{"content":"Hel"}}]}'' then
        Inr (JObj [(''choices'', JArr [JObj [(''delta'', JObj [(''content'', JStr ''Hel'')])]])])
      else if s = ''{"choices":[{"delta":{"content":"lo"}}]}'' then
        Inr (JObj [(''choices'', JArr [JObj [(''delta'', JObj [(''content'', JStr ''lo'')])]])])
      else Inl JSONDecodeError)\<close>

text \<open>
  The accumulated text with which the loop of a run ends when the stream terminates
  normally, at \<open>[DONE]\<close> or at the end of the body; \<open>None\<close> when an exception ends the run.
\<close>

definition accumulated_at_end ::
  "(string \<Rightarrow> exn + json) \<Rightarrow> exn + raw_line list \<times> exn option \<Rightarrow> string option" where
  "accumulated_at_end loads urlopen =
     (case urlopen of
        Inl e \<Rightarrow> None
      | Inr (lines, failure) \<Rightarrow>
          (case snd (read_stream loads lines failure []) of
             Inl e \<Rightarrow> None
           | Inr accumulated_text \<Rightarrow> Some accumulated_text))"

text \<open>
  The two states of the controller: idle, with no worker running and the input
  enabled, and awaiting the response, with one worker running and the input disabled.
\<close>

definition idle :: "window \<Rightarrow> bool" where
  "idle w = (workers w = 0 \<and> send_button_enabled w \<and> message_input_enabled w)"

definition awaiting_response :: "window \<Rightarrow> bool" where
  "awaiting_response w =
     (workers w = 1 \<and> \<not> send_button_enabled w \<and> \<not> message_input_enabled w)"

text \<open>The user can send: one of the two widgets that call \<open>send_message\<close> is enabled.\<close>

definition can_send :: "window \<Rightarrow> bool" where
  "can_send w = (send_button_enabled w \<or> message_input_enabled w)"

text \<open>
  The example of the specification for a commit: two records, both selected and left
  as parsed, a note type of three fields, and a store that raises for the note whose
  first field is a given text.
\<close>

definition example_dialog :: dialog where
  "example_dialog =
     \<lparr>generated_flashcards = ''Front: Q1\<newline>Back: A1\<newline>\<newline>Front: Q2\<newline>Back: A2'',
      format_text = ''Basic (Front/Back)'',
      card_checkboxes = [True, True],
      preview_layout = [Some [''Q1'', ''A1''], Some [''Q2'', ''A2'']]\<rparr>"

definition example_host :: "string \<Rightarrow> host" where
  "example_host rejected =
     \<lparr>original_tags = [''physics''],
      deck_id = 1,
      note_type = Inr 3,
      conversation_summary = ''Summary'',
      add_note_raises =
        (\<lambda>col n. if take 1 (note_fields n) = [rejected]
                 then Some (OtherError ''rejected'') else None)\<rparr>"

text \<open>A text is solid when it is empty or has a character that is not whitespace.\<close>

definition solid :: "string \<Rightarrow> bool" where
  "solid s = (s = [] \<or> (\<exists>c\<in>set s. \<not> isspace c))"

text \<open>A record with both halves.\<close>

fun complete :: "flashcard \<Rightarrow> bool" where
  "complete (Basic f b) = (f \<noteq> [] \<and> b \<noteq> [])"
| "complete (Cloze c) = False"

text \<open>A cloze record whose text has the marker \<open>{{c\<close>.\<close>

fun marked :: "flashcard \<Rightarrow> bool" where
  "marked (Cloze c) = contains ''{{c'' c"
| "marked (Basic f b) = False"

text \<open>The texts after each of a list of fragments is appended to a first text in turn.\<close>

fun cumulative :: "string \<Rightarrow> string list \<Rightarrow> string list" where
  "cumulative text [] = []"
| "cumulative text (fragment # fragments) =
     (text @ fragment) # cumulative (text @ fragment) fragments"

section \<open>Facts about the text primitives\<close>

lemma strip_eq_Nil_iff: "strip s = [] \<longleftrightarrow> (\<forall>c\<in>set s. isspace c)"
proof
  assume "strip s = []"
  then have "\<forall>c\<in>set (dropWhile isspace s). isspace c"
    by (simp add: strip_def dropWhile_eq_Nil_conv)
  then have "dropWhile isspace s = []"
    using hd_dropWhile [of isspace s] by (cases "dropWhile isspace s") auto
  then show "\<forall>c\<in>set s. isspace c"
    by (simp add: dropWhile_eq_Nil_conv)
next
  assume "\<forall>c\<in>set s. isspace c"
  then show "strip s = []"
    by (auto simp: strip_def dest: set_dropWhileD)
qed

lemma solid_Nil: "solid []"
  by (simp add: solid_def)

lemma solid_strip: "solid (strip s)"
proof (cases "strip s = []")
  case True
  then show ?thesis by (simp add: solid_def)
next
  case False
  let ?t = "dropWhile isspace (rev (dropWhile isspace s))"
  from False have ne: "?t \<noteq> []"
    by (simp add: strip_def)
  then have "\<not> isspace (hd ?t)"
    by (rule hd_dropWhile)
  moreover from ne have "hd ?t \<in> set (strip s)"
    by (simp add: strip_def)
  ultimately show ?thesis
    by (auto simp: solid_def)
qed

lemma solid_strip_nonempty: "solid s \<Longrightarrow> s \<noteq> [] \<Longrightarrow> strip s \<noteq> []"
  by (auto simp: solid_def strip_eq_Nil_iff)

lemma solid_append_line: "strip raw \<noteq> [] \<Longrightarrow> solid (cur @ [nl] @ strip raw)"
  using solid_strip [of raw] by (auto simp: solid_def)

section \<open>The basic grammar\<close>

lemma basic_loop_complete:
  "basic_loop lines cards cf cb inF inB = (cards', cf', cb') \<Longrightarrow>
   \<forall>c\<in>set cards. complete c \<Longrightarrow> solid cf \<Longrightarrow> solid cb \<Longrightarrow>
   (\<forall>c\<in>set cards'. complete c) \<and> solid cf' \<and> solid cb'"
proof (induction lines arbitrary: cards cf cb inF inB)
  case Nil
  then show ?case by simp
next
  case (Cons raw lines)
  let ?line = "strip raw"
  let ?emit = "cards @ [Basic (strip cf) (strip cb)]"
  have emit: "\<forall>c\<in>set ?emit. complete c" if "cf \<noteq> []" "cb \<noteq> []"
    using that Cons.prems(2,3,4) by (simp add: solid_strip_nonempty)
  consider
    (front) "startswith (lower ?line) ''front:''"
  | (back_label) "\<not> startswith (lower ?line) ''front:''" "startswith (lower ?line) ''back:''"
  | (more_front) "\<not> startswith (lower ?line) ''front:''" "\<not> startswith (lower ?line) ''back:''"
      "?line \<noteq> []" "inF"
  | (more_back) "\<not> startswith (lower ?line) ''front:''" "\<not> startswith (lower ?line) ''back:''"
      "?line \<noteq> []" "\<not> inF" "inB"
  | (close) "\<not> startswith (lower ?line) ''front:''" "\<not> startswith (lower ?line) ''back:''"
      "\<not> (?line \<noteq> [] \<and> inF)" "\<not> (?line \<noteq> [] \<and> inB)" "?line = [] \<and> cf \<noteq> [] \<and> cb \<noteq> []"
  | (skip) "\<not> startswith (lower ?line) ''front:''" "\<not> startswith (lower ?line) ''back:''"
      "\<not> (?line \<noteq> [] \<and> inF)" "\<not> (?line \<noteq> [] \<and> inB)" "\<not> (?line = [] \<and> cf \<noteq> [] \<and> cb \<noteq> [])"
    by blast
  then show ?case
  proof cases
    case front
    show ?thesis
    proof (cases "cf \<noteq> [] \<and> cb \<noteq> []")
      case True
      with front Cons.prems(1)
      have step: "basic_loop lines ?emit (strip (drop 6 ?line)) [] True False = (cards', cf', cb')"
        by (simp add: Let_def)
      from True have "\<forall>c\<in>set ?emit. complete c"
        using emit by blast
      then show ?thesis
        by (rule Cons.IH [OF step _ solid_strip solid_Nil])
    next
      case False
      with front Cons.prems(1)
      have step: "basic_loop lines cards (strip (drop 6 ?line)) [] True False = (cards', cf', cb')"
        by (auto simp: Let_def)
      show ?thesis
        by (rule Cons.IH [OF step Cons.prems(2) solid_strip solid_Nil])
    qed
  next
    case back_label
    with Cons.prems(1)
    have step: "basic_loop lines cards cf (strip (drop 5 ?line)) False True = (cards', cf', cb')"
      by (simp add: Let_def)
    show ?thesis
      by (rule Cons.IH [OF step Cons.prems(2,3) solid_strip])
  next
    case more_front
    with Cons.prems(1)
    have step: "basic_loop lines cards (cf @ [nl] @ ?line) cb inF inB = (cards', cf', cb')"
      by (simp add: Let_def)
    show ?thesis
      by (rule Cons.IH [OF step Cons.prems(2) solid_append_line [OF more_front(3)] Cons.prems(4)])
  next
    case more_back
    with Cons.prems(1)
    have step: "basic_loop lines cards cf (cb @ [nl] @ ?line) inF inB = (cards', cf', cb')"
      by (simp add: Let_def)
    show ?thesis
      by (rule Cons.IH [OF step Cons.prems(2,3) solid_append_line [OF more_back(3)]])
  next
    case close
    with Cons.prems(1)
    have step: "basic_loop lines ?emit [] [] False False = (cards', cf', cb')"
      by (simp add: Let_def)
    from close(5) have "\<forall>c\<in>set ?emit. complete c"
      using emit by blast
    then show ?thesis
      by (rule Cons.IH [OF step _ solid_Nil solid_Nil])
  next
    case skip
    with Cons.prems(1)
    have step: "basic_loop lines cards cf cb inF inB = (cards', cf', cb')"
      by (simp add: Let_def)
    show ?thesis
      by (rule Cons.IH [OF step Cons.prems(2,3,4)])
  qed
qed

lemma parse_basic_complete: "c \<in> set (parse_basic text) \<Longrightarrow> complete c"
proof -
  assume c: "c \<in> set (parse_basic text)"
  obtain cards cf cb where r: "basic_loop (split text nl) [] [] [] False False = (cards, cf, cb)"
    by (cases "basic_loop (split text nl) [] [] [] False False") auto
  have "(\<forall>c\<in>set cards. complete c) \<and> solid cf \<and> solid cb"
    by (rule basic_loop_complete [OF r]) (simp_all add: solid_def)
  with c r show ?thesis
    by (auto simp: parse_basic_def solid_strip_nonempty split: if_splits)
qed

text \<open>
  C3. Under the basic grammar the text \<open>Front: Q1\<close>, \<open>Back: A1\<close>, an empty line,
  \<open>Front: Q2\<close>, \<open>Back: A2\<close> is parsed into exactly two records, front \<open>Q1\<close> with back
  \<open>A1\<close> and front \<open>Q2\<close> with back \<open>A2\<close>, in that order.
\<close>

theorem parse_basic_two_records:
  "parse_flashcards ''Basic (Front/Back)''
     ''Front: Q1\<newline>Back: A1\<newline>\<newline>Front: Q2\<newline>Back: A2''
   = [Basic ''Q1'' ''A1'', Basic ''Q2'' ''A2'']"
  by code_simp


text \<open>
  C8. Under the basic grammar a record that lacks one half is dropped: the text
  \<open>Front: Q only\<close> gives no record, and for every text every record returned has a
  front that is not empty and a back that is not empty.
\<close>

theorem parse_basic_drops_incomplete:
  assumes "\<not> contains ''cloze'' (lower fmt)"
  shows "parse_flashcards fmt ''Front: Q only'' = [] \<and>
         (\<forall>card \<in> set (parse_flashcards fmt text).
            \<exists>f b. card = Basic f b \<and> f \<noteq> [] \<and> b \<noteq> [])"
proof -
  have "parse_basic ''Front: Q only'' = []"
    by code_simp
  moreover have "\<exists>f b. card = Basic f b \<and> f \<noteq> [] \<and> b \<noteq> []"
    if "card \<in> set (parse_basic text)" for card
    using parse_basic_complete [OF that] by (cases card) auto
  ultimately show ?thesis
    using assms by (simp add: parse_flashcards_def)
qed

theorem parse_basic_drops_incomplete_witness:
  "\<not> contains ''cloze'' (lower ''Basic (Front/Back)'') \<and>
   parse_flashcards ''Basic (Front/Back)'' ''Front: Q only'' = [] \<and>
   Basic ''Q'' ''A'' \<in> set (parse_flashcards ''Basic (Front/Back)'' ''Front: Q\<newline>Back: A'') \<and>
   (\<exists>f b. Basic ''Q'' ''A'' = Basic f b \<and> f \<noteq> [] \<and> b \<noteq> [])"
proof -
  have h: "\<not> contains ''cloze'' (lower ''Basic (Front/Back)'')"
    by code_simp
  have m: "Basic ''Q'' ''A'' \<in> set (parse_flashcards ''Basic (Front/Back)'' ''Front: Q\<newline>Back: A'')"
    by code_simp
  show ?thesis
    using h m parse_basic_drops_incomplete [OF h, of "''Front: Q\<newline>Back: A''"] by blast
qed

section \<open>The cloze grammar\<close>

lemma startswith_iff: "startswith s p \<longleftrightarrow> (\<exists>ss. s = p @ ss)"
proof
  assume "startswith s p"
  then have "s = p @ drop (length p) s"
    by (metis append_take_drop_id startswith_def)
  then show "\<exists>ss. s = p @ ss" ..
next
  assume "\<exists>ss. s = p @ ss"
  then show "startswith s p"
    by (auto simp: startswith_def)
qed

lemma contains_iff: "contains sub s \<longleftrightarrow> (\<exists>ps ss. s = ps @ sub @ ss)"
proof (induction s)
  case Nil
  then show ?case by auto
next
  case (Cons c cs)
  show ?case
  proof
    assume "contains sub (c # cs)"
    then consider "startswith (c # cs) sub" | "contains sub cs"
      by auto
    then show "\<exists>ps ss. c # cs = ps @ sub @ ss"
    proof cases
      case 1
      then obtain ss where "c # cs = sub @ ss"
        by (auto simp: startswith_iff)
      then have "c # cs = [] @ sub @ ss" by simp
      then show ?thesis by blast
    next
      case 2
      then obtain ps ss where "cs = ps @ sub @ ss"
        using Cons.IH by blast
      then have "c # cs = (c # ps) @ sub @ ss" by simp
      then show ?thesis by blast
    qed
  next
    assume "\<exists>ps ss. c # cs = ps @ sub @ ss"
    then obtain ps ss where eq: "c # cs = ps @ sub @ ss"
      by blast
    show "contains sub (c # cs)"
    proof (cases ps)
      case Nil
      with eq have "startswith (c # cs) sub"
        by (auto simp: startswith_iff)
      then show ?thesis by simp
    next
      case (Cons p ps')
      with eq have "cs = ps' @ sub @ ss" by simp
      then have "contains sub cs"
        using Cons.IH by blast
      then show ?thesis by simp
    qed
  qed
qed

lemma contains_append: "contains sub s \<Longrightarrow> contains sub (s @ t)"
proof -
  assume "contains sub s"
  then obtain ps ss where "s = ps @ sub @ ss"
    by (auto simp: contains_iff)
  then have "s @ t = ps @ sub @ (ss @ t)" by simp
  then show ?thesis
    unfolding contains_iff by blast
qed

lemma dropWhile_keeps:
  assumes "ys \<noteq> []" and "\<not> P (hd ys)"
  shows "\<exists>ps'. dropWhile P (ps @ ys @ ss) = ps' @ ys @ ss"
proof (induction ps)
  case Nil
  from assms have "dropWhile P (ys @ ss) = ys @ ss"
    by (cases ys) auto
  then have "dropWhile P ([] @ ys @ ss) = [] @ ys @ ss" by simp
  then show ?case by blast
next
  case (Cons p ps)
  show ?case
  proof (cases "P p")
    case True
    with Cons.IH show ?thesis by simp
  next
    case False
    then have "dropWhile P ((p # ps) @ ys @ ss) = (p # ps) @ ys @ ss" by simp
    then show ?thesis by blast
  qed
qed

lemma contains_strip:
  assumes "contains sub s" and "sub \<noteq> []"
    and "\<not> isspace (hd sub)" and "\<not> isspace (last sub)"
  shows "contains sub (strip s)"
proof -
  from assms(1) obtain ps ss where s: "s = ps @ sub @ ss"
    by (auto simp: contains_iff)
  obtain ps' where lead: "dropWhile isspace (ps @ sub @ ss) = ps' @ sub @ ss"
    using dropWhile_keeps [of sub isspace ps ss] assms(2,3) by blast
  have "rev sub \<noteq> []" and "\<not> isspace (hd (rev sub))"
    using assms(2,4) by (simp_all add: hd_rev)
  then obtain ss' where
    trail: "dropWhile isspace (rev ss @ rev sub @ rev ps') = ss' @ rev sub @ rev ps'"
    using dropWhile_keeps [of "rev sub" isspace "rev ss" "rev ps'"] by blast
  have "strip s = ps' @ sub @ rev ss'"
    by (simp add: strip_def s lead trail)
  then show ?thesis
    unfolding contains_iff by blast
qed

lemma contains_marker_strip: "contains ''{{c'' s \<Longrightarrow> contains ''{{c'' (strip s)"
  by (rule contains_strip) (simp_all add: isspace_def)

lemma cloze_loop_marked:
  "cloze_loop lines cards cur = (cards', cur') \<Longrightarrow>
   \<forall>c\<in>set cards. marked c \<Longrightarrow> cur = [] \<or> contains ''{{c'' cur \<Longrightarrow>
   (\<forall>c\<in>set cards'. marked c) \<and> (cur' = [] \<or> contains ''{{c'' cur')"
proof (induction lines arbitrary: cards cur)
  case Nil
  then show ?case by simp
next
  case (Cons raw lines)
  let ?line = "strip raw"
  let ?emit = "cards @ [Cloze (strip cur)]"
  have emit: "\<forall>c\<in>set ?emit. marked c" if "cur \<noteq> []"
    using that Cons.prems(2,3) by (simp add: contains_marker_strip)
  consider
    (start) "?line \<noteq> [] \<and> contains ''{{c'' ?line"
  | (more) "\<not> (?line \<noteq> [] \<and> contains ''{{c'' ?line)" "?line \<noteq> [] \<and> cur \<noteq> []"
  | (close) "\<not> (?line \<noteq> [] \<and> contains ''{{c'' ?line)" "\<not> (?line \<noteq> [] \<and> cur \<noteq> [])"
      "?line = [] \<and> cur \<noteq> []"
  | (skip) "\<not> (?line \<noteq> [] \<and> contains ''{{c'' ?line)" "\<not> (?line \<noteq> [] \<and> cur \<noteq> [])"
      "\<not> (?line = [] \<and> cur \<noteq> [])"
    by blast
  then show ?case
  proof cases
    case start
    show ?thesis
    proof (cases "cur \<noteq> []")
      case True
      with start Cons.prems(1)
      have step: "cloze_loop lines ?emit ?line = (cards', cur')"
        by (simp add: Let_def)
      from start have "?line = [] \<or> contains ''{{c'' ?line" by blast
      with emit [OF True] show ?thesis
        by (rule Cons.IH [OF step])
    next
      case False
      with start Cons.prems(1)
      have step: "cloze_loop lines cards ?line = (cards', cur')"
        by (simp add: Let_def)
      from start have "?line = [] \<or> contains ''{{c'' ?line" by blast
      with Cons.prems(2) show ?thesis
        by (rule Cons.IH [OF step])
    qed
  next
    case more
    with Cons.prems(1)
    have step: "cloze_loop lines cards (cur @ [nl] @ ?line) = (cards', cur')"
      by (simp add: Let_def)
    from more(2) Cons.prems(3) have "contains ''{{c'' (cur @ [nl] @ ?line)"
      by (auto intro: contains_append)
    then have "cur @ [nl] @ ?line = [] \<or> contains ''{{c'' (cur @ [nl] @ ?line)" ..
    with Cons.prems(2) show ?thesis
      by (rule Cons.IH [OF step])
  next
    case close
    with Cons.prems(1)
    have step: "cloze_loop lines ?emit [] = (cards', cur')"
      by (simp add: Let_def)
    from close(3) have "\<forall>c\<in>set ?emit. marked c"
      using emit by blast
    then show ?thesis
      by (rule Cons.IH [OF step]) simp
  next
    case skip
    with Cons.prems(1)
    have step: "cloze_loop lines cards cur = (cards', cur')"
      by (simp add: Let_def)
    show ?thesis
      by (rule Cons.IH [OF step Cons.prems(2,3)])
  qed
qed

lemma parse_cloze_marked: "c \<in> set (parse_cloze text) \<Longrightarrow> marked c"
proof -
  assume c: "c \<in> set (parse_cloze text)"
  obtain cards cur where r: "cloze_loop (split text nl) [] [] = (cards, cur)"
    by (cases "cloze_loop (split text nl) [] []") auto
  have "(\<forall>c\<in>set cards. marked c) \<and> (cur = [] \<or> contains ''{{c'' cur)"
    by (rule cloze_loop_marked [OF r]) simp_all
  with c r show ?thesis
    by (auto simp: parse_cloze_def contains_marker_strip split: if_splits)
qed

text \<open>
  C9, as stated: every record of the cloze grammar has a span \<open>{{cN::...}}\<close>, more than
  the marker \<open>{{c\<close>. The parser tests a line for the marker only: the text \<open>{{c\<close>
  gives a record and has no such span.
\<close>

theorem parse_cloze_record_without_span:
  "parse_flashcards ''Cloze Deletion'' ''{{c'' = [Cloze ''{{c''] \<and> \<not> has_cloze_span ''{{c''"
  by code_simp

text \<open>
  C9, amended: for every text, every record returned under the cloze grammar is a
  cloze record whose text has the marker \<open>{{c\<close>.
\<close>

theorem parse_cloze_records_marked:
  assumes "contains ''cloze'' (lower fmt)"
  shows "\<forall>card \<in> set (parse_flashcards fmt text). \<exists>c. card = Cloze c \<and> contains ''{{c'' c"
proof
  fix card
  assume "card \<in> set (parse_flashcards fmt text)"
  with assms have "card \<in> set (parse_cloze text)"
    by (simp add: parse_flashcards_def)
  then have "marked card"
    by (rule parse_cloze_marked)
  then show "\<exists>c. card = Cloze c \<and> contains ''{{c'' c"
    by (cases card) auto
qed

theorem parse_cloze_records_marked_witness:
  "contains ''cloze'' (lower ''Cloze Deletion'') \<and>
   Cloze ''{{c1::foo}} is {{c2::bar}}.''
     \<in> set (parse_flashcards ''Cloze Deletion'' ''{{c1::foo}} is {{c2::bar}}.\<newline>\<newline>{{c1::baz}}.'') \<and>
   (\<exists>c. Cloze ''{{c1::foo}} is {{c2::bar}}.'' = Cloze c \<and> contains ''{{c'' c)"
proof -
  have h: "contains ''cloze'' (lower ''Cloze Deletion'')"
    by code_simp
  have m: "Cloze ''{{c1::foo}} is {{c2::bar}}.''
     \<in> set (parse_flashcards ''Cloze Deletion'' ''{{c1::foo}} is {{c2::bar}}.\<newline>\<newline>{{c1::baz}}.'')"
    by code_simp
  show ?thesis
    using h m
      parse_cloze_records_marked [OF h, of "''{{c1::foo}} is {{c2::bar}}.\<newline>\<newline>{{c1::baz}}.''"]
    by blast
qed

section \<open>The streaming worker\<close>

lemma on_chunk_data_extends:
  "on_chunk_data chunk_data text = Inr (Some text') \<Longrightarrow> \<exists>fragment. text' = text @ fragment"
proof -
  assume a: "on_chunk_data chunk_data text = Inr (Some text')"
  have "\<exists>fragment. t = text @ fragment" if "py_concat text v = Inr t" for v t
    using that by (cases v) auto
  with a show ?thesis
    by (auto simp: on_chunk_data_def and_then_def split: sum.splits if_splits)
qed

lemma read_stream_cumulative:
  "read_stream loads lines failure acc = (emitted, ending) \<Longrightarrow>
   \<exists>fragments. emitted = map chunk_received (cumulative acc fragments) \<and>
     (\<forall>t. ending = Inr t \<longrightarrow> t = acc @ concat fragments)"
proof (induction loads lines failure acc arbitrary: emitted ending rule: read_stream.induct)
  case (1 loads failure acc)
  then have "emitted = map chunk_received (cumulative acc []) \<and>
     (\<forall>t. ending = Inr t \<longrightarrow> t = acc @ concat [])"
    by (auto split: option.splits)
  then show ?case by blast
next
  case (2 loads rest failure acc)
  then have "emitted = map chunk_received (cumulative acc []) \<and>
     (\<forall>t. ending = Inr t \<longrightarrow> t = acc @ concat [])"
    by auto
  then show ?case by blast
next
  case (3 loads raw rest failure acc)
  let ?line = "strip raw"
  let ?payload = "drop 6 ?line"
  have stop: ?case if "emitted = []" "\<forall>t. ending = Inr t \<longrightarrow> t = acc"
  proof -
    from that have "emitted = map chunk_received (cumulative acc []) \<and>
       (\<forall>t. ending = Inr t \<longrightarrow> t = acc @ concat [])"
      by simp
    then show ?thesis by blast
  qed
  show ?case
  proof (cases "startswith ?line ''data: ''")
    case False
    with "3.prems" have step: "read_stream loads rest failure acc = (emitted, ending)"
      by (simp add: Let_def)
    show ?thesis
      by (rule "3.IH"(5) [OF refl False step])
  next
    case data: True
    show ?thesis
    proof (cases "?payload = ''[DONE]''")
      case True
      with data "3.prems" have "emitted = []" "ending = Inr acc"
        by (simp_all add: Let_def)
      then show ?thesis
        by (intro stop) simp_all
    next
      case not_done: False
      show ?thesis
      proof (cases "?payload = []")
        case True
        with data not_done "3.prems"
        have step: "read_stream loads rest failure acc = (emitted, ending)"
          by (simp add: Let_def)
        from True have empty: "\<not> ?payload \<noteq> []"
          by simp
        show ?thesis
          by (rule "3.IH"(4) [OF refl data refl not_done empty step])
      next
        case payload: False
        show ?thesis
        proof (cases "loads ?payload")
          case (Inl e)
          show ?thesis
          proof (cases "e = JSONDecodeError")
            case True
            with data not_done payload Inl "3.prems"
            have step: "read_stream loads rest failure acc = (emitted, ending)"
              by (simp add: Let_def)
            show ?thesis
              by (rule "3.IH"(1) [OF refl data refl not_done payload Inl True step])
          next
            case False
            with data not_done payload Inl "3.prems" have "emitted = []" "ending = Inl e"
              by (simp_all add: Let_def)
            then show ?thesis
              by (intro stop) simp_all
          qed
        next
          case (Inr chunk_data)
          show ?thesis
          proof (cases "on_chunk_data chunk_data acc")
            case (Inl e)
            with data not_done payload Inr "3.prems" have "emitted = []" "ending = Inl e"
              by (simp_all add: Let_def)
            then show ?thesis
              by (intro stop) simp_all
          next
            case result: (Inr r)
            show ?thesis
            proof (cases r)
              case None
              with data not_done payload Inr result "3.prems"
              have step: "read_stream loads rest failure acc = (emitted, ending)"
                by (simp add: Let_def)
              show ?thesis
                by (rule "3.IH"(2) [OF refl data refl not_done payload Inr result None step])
            next
              case (Some acc')
              obtain emitted' where
                loop: "read_stream loads rest failure acc' = (emitted', ending)" and
                emitted: "emitted = chunk_received acc' # emitted'"
                using data not_done payload Inr result Some "3.prems"
                by (auto simp: Let_def split: prod.splits)
              obtain fragment where acc': "acc' = acc @ fragment"
                using on_chunk_data_extends result Some by blast
              obtain fragments where
                rest: "emitted' = map chunk_received (cumulative acc' fragments)"
                  "\<forall>t. ending = Inr t \<longrightarrow> t = acc' @ concat fragments"
                using "3.IH"(3) [OF refl data refl not_done payload Inr result Some loop]
                by blast
              have "emitted = map chunk_received (cumulative acc (fragment # fragments)) \<and>
                 (\<forall>t. ending = Inr t \<longrightarrow> t = acc @ concat (fragment # fragments))"
                using emitted rest acc' by simp
              then show ?thesis by blast
            qed
          qed
        qed
      qed
    qed
  qed
qed

lemma run_shape:
  "\<exists>fragments final.
     run loads urlopen = map chunk_received (cumulative [] fragments) @ [final] \<and>
     \<not> is_chunk final \<and>
     (\<forall>t. final = response_finished t \<longrightarrow> t = concat fragments \<and> t \<noteq> [])"
proof (cases urlopen)
  case (Inl e)
  then have "run loads urlopen = map chunk_received (cumulative [] []) @ [error_occurred (Str e)]"
    by (simp add: run_def)
  then show ?thesis
    by (metis is_chunk.simps(3) signal.distinct(5))
next
  case (Inr response)
  obtain lines failure where response: "response = (lines, failure)"
    by (cases response)
  obtain emitted ending where loop: "read_stream loads lines failure [] = (emitted, ending)"
    by (cases "read_stream loads lines failure []")
  obtain fragments where
    emitted: "emitted = map chunk_received (cumulative [] fragments)" and
    ending: "\<forall>t. ending = Inr t \<longrightarrow> t = [] @ concat fragments"
    using read_stream_cumulative [OF loop] by blast
  let ?final = "case ending of
      Inl e \<Rightarrow> error_occurred (Str e)
    | Inr t \<Rightarrow> if t \<noteq> [] then response_finished t
               else error_occurred (Literal ''No response received'')"
  have "run loads urlopen = map chunk_received (cumulative [] fragments) @ [?final]"
    using Inr response loop emitted by (simp add: run_def split: sum.splits)
  moreover have "\<not> is_chunk ?final"
    by (simp split: sum.splits)
  moreover have "\<forall>t. ?final = response_finished t \<longrightarrow> t = concat fragments \<and> t \<noteq> []"
    using ending by (auto split: sum.splits if_splits)
  ultimately show ?thesis
    by blast
qed

lemma no_ending_among_chunks: "filter (\<lambda>s. \<not> is_chunk s) (map chunk_received texts) = []"
  by (induction texts) simp_all

text \<open>
  C1. A session fed the three events of the example, the fragments \<open>Hel\<close> and \<open>lo\<close>
  and then \<open>[DONE]\<close>, emits the chunk \<open>Hel\<close>, the chunk \<open>Hello\<close> and then the end
  with \<open>Hello\<close>, and nothing after it. In general the chunks of a run carry the
  accumulated text so far, fragment after fragment, not the fragments; one signal
  that is not a chunk follows them, and a successful end carries all the fragments.
\<close>

theorem streaming_chunks_are_cumulative:
  assumes
    \<open>loads ''{"choices":[{"delta":{"content":"Hel"}}]}'' =
       Inr (JObj [(''choices'', JArr [JObj [(''delta'', JObj [(''content'', JStr ''Hel'')])]])])\<close>
    and
    \<open>loads ''{"choices":[{"delta":{"content":"lo"}}]}'' =
       Inr (JObj [(''choices'', JArr [JObj [(''delta'', JObj [(''content'', JStr ''lo'')])]])])\<close>
  shows
    \<open>run loads
       (Inr ([Decoded ''data: {"choices":[{"delta":{"content":"Hel"}}]}'',
              Decoded ''data: {"choices":[{"delta":{"content":"lo"}}]}'',
              Decoded ''data: [DONE]''], None))
       = [chunk_received ''Hel'', chunk_received ''Hello'', response_finished ''Hello''] \<and>
     (\<forall>decoder urlopen. \<exists>fragments final.
        run decoder urlopen = map chunk_received (cumulative [] fragments) @ [final] \<and>
        \<not> is_chunk final \<and>
        (\<forall>t. final = response_finished t \<longrightarrow> t = concat fragments))\<close>
proof -
  have strip1: \<open>strip ''data: {"choices":[{"delta":{"content":"Hel"}}]}''
      = ''data: {"choices":[{"delta":{"content":"Hel"}}]}''\<close>
    by code_simp
  have strip2: \<open>strip ''data: {"choices":[{"delta":{"content":"lo"}}]}''
      = ''data: {"choices":[{"delta":{"content":"lo"}}]}''\<close>
    by code_simp
  have strip3: "strip ''data: [DONE]'' = ''data: [DONE]''"
    by code_simp
  have example: \<open>run loads
       (Inr ([Decoded ''data: {"choices":[{"delta":{"content":"Hel"}}]}'',
              Decoded ''data: {"choices":[{"delta":{"content":"lo"}}]}'',
              Decoded ''data: [DONE]''], None))
       = [chunk_received ''Hel'', chunk_received ''Hello'', response_finished ''Hello'']\<close>
    using assms
    by (simp add: run_def strip1 strip2 strip3 startswith_def on_chunk_data_def and_then_def)
  have general: "\<exists>fragments final.
        run decoder urlopen = map chunk_received (cumulative [] fragments) @ [final] \<and>
        \<not> is_chunk final \<and>
        (\<forall>t. final = response_finished t \<longrightarrow> t = concat fragments)" for decoder urlopen
    using run_shape [of decoder urlopen] by blast
  from example general show ?thesis
    by blast
qed

theorem streaming_chunks_are_cumulative_witness:
  \<open>example_loads ''{"choices":[{"delta":{"content":"Hel"}}]}'' =
     Inr (JObj [(''choices'', JArr [JObj [(''delta'', JObj [(''content'', JStr ''Hel'')])]])]) \<and>
   example_loads ''{"choices":[{"delta":{"content":"lo"}}]}'' =
     Inr (JObj [(''choices'', JArr [JObj [(''delta'', JObj [(''content'', JStr ''lo'')])]])]) \<and>
   run example_loads
     (Inr ([Decoded ''data: {"choices":[{"delta":{"content":"Hel"}}]}'',
            Decoded ''data: {"choices":[{"delta":{"content":"lo"}}]}'',
            Decoded ''data: [DONE]''], None))
     = [chunk_received ''Hel'', chunk_received ''Hello'', response_finished ''Hello'']\<close>
proof -
  have hel: \<open>example_loads ''{"choices":[{"delta":{"content":"Hel"}}]}'' =
     Inr (JObj [(''choices'', JArr [JObj [(''delta'', JObj [(''content'', JStr ''Hel'')])]])])\<close>
    by (simp add: example_loads_def)
  have lo: \<open>example_loads ''{"choices":[{"delta":{"content":"lo"}}]}'' =
     Inr (JObj [(''choices'', JArr [JObj [(''delta'', JObj [(''content'', JStr ''lo'')])]])])\<close>
    by (simp add: example_loads_def)
  show ?thesis
    using hel lo streaming_chunks_are_cumulative [OF hel lo] by blast
qed

text \<open>
  C2. For every stream a session signals exactly one of done and error, exactly once,
  as its last signal. When the stream terminates normally with an empty accumulated
  text, and so whenever it terminates normally without a chunk, the session signals
  the error \<open>No response received\<close> and never done.
\<close>

theorem streaming_ends_exactly_once:
  "length (filter (\<lambda>s. \<not> is_chunk s) (run loads urlopen)) = 1 \<and>
   \<not> is_chunk (last (run loads urlopen)) \<and>
   (accumulated_at_end loads urlopen = Some [] \<longrightarrow>
      last (run loads urlopen) = error_occurred (Literal ''No response received'') \<and>
      (\<forall>t. response_finished t \<notin> set (run loads urlopen))) \<and>
   (accumulated_at_end loads urlopen \<noteq> None \<longrightarrow>
      filter is_chunk (run loads urlopen) = [] \<longrightarrow>
      run loads urlopen = [error_occurred (Literal ''No response received'')])"
proof -
  obtain fragments final where
    shape: "run loads urlopen = map chunk_received (cumulative [] fragments) @ [final]" and
    final: "\<not> is_chunk final" and
    finished: "\<forall>t. final = response_finished t \<longrightarrow> t = concat fragments \<and> t \<noteq> []"
    using run_shape [of loads urlopen] by blast
  have once: "length (filter (\<lambda>s. \<not> is_chunk s) (run loads urlopen)) = 1"
    using final by (simp add: shape no_ending_among_chunks)
  have last: "last (run loads urlopen) = final"
    by (simp add: shape)
  have empty: "final = error_occurred (Literal ''No response received'')"
    if "accumulated_at_end loads urlopen = Some []"
    using that shape
    by (auto simp: accumulated_at_end_def run_def split: sum.splits prod.splits)
  have never: "response_finished t \<notin> set (run loads urlopen)"
    if "accumulated_at_end loads urlopen = Some []" for t
    using empty [OF that] by (auto simp: shape)
  have silent: "run loads urlopen = [error_occurred (Literal ''No response received'')]"
    if normal: "accumulated_at_end loads urlopen \<noteq> None"
      and none: "filter is_chunk (run loads urlopen) = []"
  proof -
    from none have "cumulative [] fragments = []"
      using final by (simp add: shape filter_empty_conv)
    then have fragments: "fragments = []"
      by (cases fragments) simp_all
    obtain lines failure where urlopen: "urlopen = Inr (lines, failure)"
      using normal by (cases urlopen) (auto simp: accumulated_at_end_def)
    obtain emitted ending where loop: "read_stream loads lines failure [] = (emitted, ending)"
      by (cases "read_stream loads lines failure []")
    obtain t where t: "ending = Inr t"
      using normal urlopen loop by (cases ending) (auto simp: accumulated_at_end_def)
    have "emitted = []"
      using shape urlopen loop t fragments by (simp add: run_def)
    moreover have "t = []"
      using read_stream_cumulative [OF loop] t \<open>emitted = []\<close>
      by (metis append_Nil concat.simps(1) cumulative.elims list.distinct(1) list.simps(8) map_is_Nil_conv)
    ultimately show ?thesis
      using urlopen loop t by (simp add: run_def)
  qed
  from once final last empty never silent show ?thesis
    by auto
qed

theorem streaming_ends_exactly_once_witness:
  "accumulated_at_end example_loads (Inr ([Decoded ''data: [DONE]''], None)) = Some [] \<and>
   filter is_chunk (run example_loads (Inr ([Decoded ''data: [DONE]''], None))) = [] \<and>
   run example_loads (Inr ([Decoded ''data: [DONE]''], None))
     = [error_occurred (Literal ''No response received'')]"
proof -
  have a: "accumulated_at_end example_loads (Inr ([Decoded ''data: [DONE]''], None)) = Some []"
    by code_simp
  have c: "filter is_chunk (run example_loads (Inr ([Decoded ''data: [DONE]''], None))) = []"
    by code_simp
  show ?thesis
    using a c streaming_ends_exactly_once [of example_loads "Inr ([Decoded ''data: [DONE]''], None)"]
    by simp
qed

section \<open>The chat window\<close>

lemma send_message_starts_turn:
  assumes "strip (message_input w) \<noteq> []"
  shows "chat_db (send_message w) = chat_db w @ [(card_id w, ''user'', strip (message_input w))]"
    and "card_id (send_message w) = card_id w"
    and "workers (send_message w) = workers w + 1"
    and "\<not> send_button_enabled (send_message w)"
    and "\<not> message_input_enabled (send_message w)"
  using assms by (simp_all add: send_message_def save_message_def Let_def)

lemma chunks_keep_state:
  assumes "workers w \<noteq> 0"
  shows "chat_db (foldl dispatch w (map Worker_signal (map chunk_received texts))) = chat_db w \<and>
         card_id (foldl dispatch w (map Worker_signal (map chunk_received texts))) = card_id w \<and>
         workers (foldl dispatch w (map Worker_signal (map chunk_received texts))) = workers w \<and>
         send_button_enabled (foldl dispatch w (map Worker_signal (map chunk_received texts)))
           = send_button_enabled w \<and>
         message_input_enabled (foldl dispatch w (map Worker_signal (map chunk_received texts)))
           = message_input_enabled w"
  using assms
proof (induction texts arbitrary: w)
  case Nil
  then show ?case by simp
next
  case (Cons t texts)
  let ?w = "update_streaming_bubble w t"
  have same: "chat_db ?w = chat_db w" "card_id ?w = card_id w" "workers ?w = workers w"
    "send_button_enabled ?w = send_button_enabled w"
    "message_input_enabled ?w = message_input_enabled w"
    by (simp_all add: update_streaming_bubble_def)
  from Cons.prems same have "workers ?w \<noteq> 0"
    by simp
  from Cons.IH [OF this] Cons.prems same show ?case
    by simp
qed

lemma dispatch_keeps_or_ends:
  assumes "idle w \<or> awaiting_response w"
  shows "idle (dispatch w e) \<or> awaiting_response (dispatch w e)"
proof (cases e)
  case (Edit_input t)
  with assms show ?thesis
    by (auto simp: idle_def awaiting_response_def)
next
  case Click_send
  with assms show ?thesis
    by (auto simp: idle_def awaiting_response_def send_message_def Let_def)
next
  case Return_pressed
  with assms show ?thesis
    by (auto simp: idle_def awaiting_response_def send_message_def Let_def)
next
  case (Worker_signal s)
  with assms show ?thesis
    by (cases s)
      (auto simp: idle_def awaiting_response_def update_streaming_bubble_def
        finish_streaming_response_def handle_streaming_error_def)
qed

lemma reachable_idle_or_awaiting:
  "idle (foldl dispatch (new_window cid db) events) \<or>
   awaiting_response (foldl dispatch (new_window cid db) events)"
proof (induction events rule: rev_induct)
  case Nil
  show ?case by (simp add: idle_def new_window_def)
next
  case (snoc e events)
  then show ?case
    using dispatch_keeps_or_ends by simp
qed

lemma can_send_again_only_by_ending:
  assumes "\<not> can_send w" and "can_send (dispatch w e)"
  shows "\<exists>s. e = Worker_signal s \<and> \<not> is_chunk s"
proof (cases e)
  case (Edit_input t)
  with assms show ?thesis by (auto simp: can_send_def)
next
  case Click_send
  with assms show ?thesis by (auto simp: can_send_def)
next
  case Return_pressed
  with assms show ?thesis by (auto simp: can_send_def)
next
  case (Worker_signal s)
  with assms show ?thesis
    by (cases s) (auto simp: can_send_def update_streaming_bubble_def split: if_splits)
qed

text \<open>
  In the window with streaming, a turn whose session ends in error leaves the user's
  message, saved when the turn started and before the worker ran, as the only row
  added to the table; the window is idle again and takes a new message.
\<close>

lemma streaming_failed_turn_saves_no_answer:
  assumes "idle w"
    and "strip (message_input w) \<noteq> []"
    and "last (run loads urlopen) = error_occurred description"
    and "after = foldl dispatch w (Click_send # map Worker_signal (run loads urlopen))"
  shows "chat_db (dispatch w Click_send)
           = chat_db w @ [(card_id w, ''user'', strip (message_input w))] \<and>
         awaiting_response (dispatch w Click_send) \<and>
         chat_db after = chat_db w @ [(card_id w, ''user'', strip (message_input w))] \<and>
         idle after \<and>
         awaiting_response (dispatch (after\<lparr>message_input := ''again''\<rparr>) Click_send)"
proof -
  let ?user = "(card_id w, ''user'', strip (message_input w))"
  let ?w1 = "send_message w"
  have click: "dispatch w Click_send = ?w1"
    using assms(1) by (simp add: idle_def)
  note started = send_message_starts_turn [OF assms(2)]
  have w1: "workers ?w1 = 1"
    using started(3) assms(1) by (simp add: idle_def)
  have awaiting: "awaiting_response ?w1"
    using w1 started(4,5) by (simp add: awaiting_response_def)
  obtain fragments final where
    shape: "run loads urlopen = map chunk_received (cumulative [] fragments) @ [final]"
    using run_shape [of loads urlopen] by blast
  with assms(3) have final: "final = error_occurred description"
    by simp
  let ?w2 = "foldl dispatch ?w1 (map Worker_signal (map chunk_received (cumulative [] fragments)))"
  have "workers ?w1 \<noteq> 0"
    using w1 by simp
  from chunks_keep_state [OF this, of "cumulative [] fragments"]
  have w2: "chat_db ?w2 = chat_db ?w1" "card_id ?w2 = card_id ?w1" "workers ?w2 = 1"
    using w1 by simp_all
  have after: "after = handle_streaming_error (?w2\<lparr>workers := workers ?w2 - 1\<rparr>) description"
    using assms(4) click shape final w2(3) by simp
  have db: "chat_db after = chat_db w @ [?user]"
    using after w2(1) started(1) by (simp add: handle_streaming_error_def)
  have idle_after: "idle after"
    using after w2(3) by (simp add: handle_streaming_error_def idle_def)
  have again: "awaiting_response (dispatch (after\<lparr>message_input := ''again''\<rparr>) Click_send)"
  proof -
    have s: "strip ''again'' = ''again''"
      by code_simp
    show ?thesis
      using idle_after
      by (simp add: idle_def awaiting_response_def send_message_def s)
  qed
  from click started(1) awaiting db idle_after again show ?thesis
    by simp
qed

text \<open>
  C6. At most one streaming turn is active in a window at any time: whatever has
  happened to the window, it is idle or awaits one response; while it awaits the
  response a click on the send button and a return in the input line start nothing;
  and only the last signal of the running session, done or error, makes sending
  possible again.
\<close>

theorem one_turn_at_a_time:
  assumes "w = foldl dispatch (new_window cid db) events"
  shows "workers w \<le> 1 \<and>
         (idle w \<or> awaiting_response w) \<and>
         (workers w = 1 \<longrightarrow>
            \<not> can_send w \<and> dispatch w Click_send = w \<and> dispatch w Return_pressed = w) \<and>
         (\<forall>e. \<not> can_send w \<and> can_send (dispatch w e)
            \<longrightarrow> (\<exists>s. e = Worker_signal s \<and> \<not> is_chunk s))"
proof -
  have state: "idle w \<or> awaiting_response w"
    unfolding assms by (rule reachable_idle_or_awaiting)
  then have "workers w \<le> 1"
    by (auto simp: idle_def awaiting_response_def)
  moreover have "\<not> can_send w \<and> dispatch w Click_send = w \<and> dispatch w Return_pressed = w"
    if "workers w = 1"
    using state that by (auto simp: idle_def awaiting_response_def can_send_def)
  moreover have "\<exists>s. e = Worker_signal s \<and> \<not> is_chunk s"
    if "\<not> can_send w \<and> can_send (dispatch w e)" for e
    using that can_send_again_only_by_ending by blast
  ultimately show ?thesis
    using state by blast
qed

theorem one_turn_at_a_time_witness:
  "workers (foldl dispatch (new_window 7 []) [Edit_input ''why?'', Click_send]) = 1 \<and>
   awaiting_response (foldl dispatch (new_window 7 []) [Edit_input ''why?'', Click_send]) \<and>
   \<not> can_send (foldl dispatch (new_window 7 []) [Edit_input ''why?'', Click_send]) \<and>
   dispatch (foldl dispatch (new_window 7 []) [Edit_input ''why?'', Click_send]) Click_send
     = foldl dispatch (new_window 7 []) [Edit_input ''why?'', Click_send] \<and>
   can_send (dispatch (foldl dispatch (new_window 7 []) [Edit_input ''why?'', Click_send])
               (Worker_signal (error_occurred (Literal ''No response received''))))"
proof -
  let ?w = "foldl dispatch (new_window 7 []) [Edit_input ''why?'', Click_send]"
  have s: "strip ''why?'' = ''why?''"
    by code_simp
  have one: "workers ?w = 1"
    by (simp add: new_window_def send_message_def s)
  have a: "awaiting_response ?w"
    by (simp add: new_window_def send_message_def s awaiting_response_def)
  have c: "can_send (dispatch ?w (Worker_signal (error_occurred (Literal ''No response received''))))"
    by (simp add: new_window_def send_message_def s can_send_def handle_streaming_error_def)
  show ?thesis
    using one a c one_turn_at_a_time [of ?w 7 "[]" "[Edit_input ''why?'', Click_send]"]
    by blast
qed

text \<open>
  The window without streaming makes the request inside \<open>send_message\<close>. A request
  that fails comes back from \<open>get_ai_response\<close> as a text that is not empty, the
  apology of its \<open>except\<close> branch, so the test \<open>if ai_response\<close> holds and the text
  is saved as the answer after the user's message.
\<close>

lemma simple_failed_request_is_saved:
  assumes "strip (simple_message_input w) \<noteq> []"
  shows "simple_chat_db (simple_send_message w (Inl description))
           = simple_chat_db w @
             [(simple_card_id w, ''user'', strip (simple_message_input w)),
              (simple_card_id w, ''assistant'', get_ai_response (Inl description))]"
  using assms by (simp add: simple_send_message_def save_message_def get_ai_response_def Let_def)

text \<open>
  C4. After a turn that ends in error the history of the card is to have the user's
  message and no assistant message of that turn, the controller being idle again.
  The window with streaming does so. The window without streaming does not: with
  the message \<open>why?\<close> and a request that fails with \<open>timed out\<close>, it saves the user's
  message and then, as an assistant message, the apology that reports the failure;
  its send button is enabled again.
\<close>

theorem simple_failed_turn_saves_apology:
  "simple_send_message
     \<lparr>simple_card_id = 7, simple_chat_db = [], simple_message_input = ''why?'',
      simple_send_button_enabled = True\<rparr>
     (Inl ''timed out'')
   = \<lparr>simple_card_id = 7,
      simple_chat_db =
        [(7, ''user'', ''why?''),
         (7, ''assistant'',
          ''Sorry, I couldn'' @ [CHR 0x27] @
          ''t process your request right now. Error: timed out'')],
      simple_message_input = [],
      simple_send_button_enabled = True\<rparr>"
proof -
  have s: "strip ''why?'' = ''why?''"
    by code_simp
  show ?thesis
    by (simp add: simple_send_message_def save_message_def get_ai_response_def s)
qed

section \<open>The commit of the selected records\<close>

lemma create_loop_grows:
  "create_loop h fmt n cards col k = (col', k') \<Longrightarrow>
   \<exists>added. col' = col @ added \<and> k' = k + length added"
proof (induction cards arbitrary: col k)
  case Nil
  then have "col' = col @ [] \<and> k' = k + length ([] :: collection)"
    by simp
  then show ?case by blast
next
  case (Cons chosen cards)
  show ?case
  proof (cases "create_note h fmt n col chosen")
    case (Inl e)
    with Cons.prems have "create_loop h fmt n cards col k = (col', k')"
      by simp
    then show ?thesis
      by (rule Cons.IH)
  next
    case (Inr col1)
    with Cons.prems have step: "create_loop h fmt n cards col1 (k + 1) = (col', k')"
      by simp
    from Inr obtain x where col1: "col1 = col @ [x]"
      by (auto simp: create_note_def and_then_def split: sum.splits option.splits)
    from Cons.IH [OF step] obtain added where "col' = col1 @ added" "k' = k + 1 + length added"
      by blast
    with col1 have "col' = col @ (x # added) \<and> k' = k + length (x # added)"
      by simp
    then show ?thesis by blast
  qed
qed

lemma create_loop_keeps:
  "x \<in> set col \<Longrightarrow> x \<in> set (fst (create_loop h fmt n cards col k))"
proof (induction cards arbitrary: col k)
  case Nil
  then show ?case by simp
next
  case (Cons chosen cards)
  show ?case
  proof (cases "create_note h fmt n col chosen")
    case (Inl e)
    with Cons show ?thesis by simp
  next
    case (Inr col1)
    then have "col1 = col @ [last col1]"
      by (auto simp: create_note_def and_then_def split: sum.splits option.splits)
    with Cons.prems have "x \<in> set col1"
      by (metis Un_iff set_append)
    with Inr Cons.IH show ?thesis by simp
  qed
qed

lemma create_loop_reaches_every_record:
  assumes "chosen \<in> set cards"
    and "fill_note h fmt n chosen = Inr filled"
    and "\<forall>c. add_note_raises h c filled = None"
  shows "(filled, deck_id h) \<in> set (fst (create_loop h fmt n cards col k))"
  using assms(1)
proof (induction cards arbitrary: col k)
  case Nil
  then show ?case by simp
next
  case (Cons first cards)
  show ?case
  proof (cases "first = chosen")
    case True
    with assms(2,3) have made: "create_note h fmt n col first = Inr (col @ [(filled, deck_id h)])"
      by (simp add: create_note_def and_then_def)
    have "(filled, deck_id h) \<in> set (col @ [(filled, deck_id h)])"
      by simp
    then have "(filled, deck_id h)
        \<in> set (fst (create_loop h fmt n cards (col @ [(filled, deck_id h)]) (k + 1)))"
      by (rule create_loop_keeps)
    with made show ?thesis by simp
  next
    case False
    with Cons.prems have "chosen \<in> set cards" by simp
    then show ?thesis
      using Cons.IH by (cases "create_note h fmt n col first") simp_all
  qed
qed

text \<open>
  C5. In a commit the failure of one record's note is caught and skipped: the call
  always ends with a message and never with an exception, the collection keeps what
  it had, and the count in the message is the number of notes added, a warning being
  shown when none was added; a selected record whose note the store accepts is added
  whatever happens to the other records; and with two selected records of which the
  store refuses the second, the message reports one created record.
\<close>

theorem commit_skips_failed_record:
  "(\<exists>added. snd (create_flashcards h d col) = col @ added \<and>
      (added \<noteq> [] \<longrightarrow> fst (create_flashcards h d col) = showInfo_created (length added)) \<and>
      (added = [] \<longrightarrow> (\<exists>m. fst (create_flashcards h d col) = showWarning m))) \<and>
   (generated_flashcards d \<noteq> [] \<longrightarrow> note_type h = Inr n \<longrightarrow>
      select_loop d 0 (parse_flashcards (format_text d) (generated_flashcards d)) = Inr selected \<longrightarrow>
      chosen \<in> set selected \<longrightarrow> fill_note h (format_text d) n chosen = Inr filled \<longrightarrow>
      (\<forall>c. add_note_raises h c filled = None) \<longrightarrow>
      (filled, deck_id h) \<in> set (snd (create_flashcards h d col))) \<and>
   create_flashcards (example_host ''Q2'') example_dialog []
     = (showInfo_created 1,
        [(\<lparr>note_tags = [''physics''], note_fields = [''Q1'', ''A1'', ''Summary'']\<rparr>, 1)])"
proof (intro conjI impI)
  let ?cards = "parse_flashcards (format_text d) (generated_flashcards d)"
  show "\<exists>added. snd (create_flashcards h d col) = col @ added \<and>
      (added \<noteq> [] \<longrightarrow> fst (create_flashcards h d col) = showInfo_created (length added)) \<and>
      (added = [] \<longrightarrow> (\<exists>m. fst (create_flashcards h d col) = showWarning m))"
  proof (cases "generated_flashcards d \<noteq> [] \<and> ?cards \<noteq> [] \<and>
      (\<exists>n selected. note_type h = Inr n \<and> select_loop d 0 ?cards = Inr selected \<and> selected \<noteq> [])")
    case False
    then have "snd (create_flashcards h d col) = col @ [] \<and>
        (\<exists>m. fst (create_flashcards h d col) = showWarning m)"
      by (auto simp: create_flashcards_def Let_def split: sum.splits)
    then show ?thesis by blast
  next
    case True
    then obtain n selected where
      given: "generated_flashcards d \<noteq> []" "?cards \<noteq> []" "note_type h = Inr n"
        "select_loop d 0 ?cards = Inr selected" "selected \<noteq> []"
      by blast
    obtain col' k' where loop: "create_loop h (format_text d) n selected col 0 = (col', k')"
      by (cases "create_loop h (format_text d) n selected col 0")
    from create_loop_grows [OF loop] obtain added where
      added: "col' = col @ added" "k' = length added"
      by auto
    have "snd (create_flashcards h d col) = col @ added"
      using given loop added by (simp add: create_flashcards_def Let_def)
    moreover have "fst (create_flashcards h d col) = showInfo_created (length added)"
      if "added \<noteq> []"
      using given loop added that by (simp add: create_flashcards_def Let_def)
    moreover have "\<exists>m. fst (create_flashcards h d col) = showWarning m"
      if "added = []"
      using given loop added that by (simp add: create_flashcards_def Let_def)
    ultimately show ?thesis by blast
  qed
next
  let ?cards = "parse_flashcards (format_text d) (generated_flashcards d)"
  assume given: "generated_flashcards d \<noteq> []" "note_type h = Inr n"
    "select_loop d 0 ?cards = Inr selected" "chosen \<in> set selected"
    "fill_note h (format_text d) n chosen = Inr filled"
    "\<forall>c. add_note_raises h c filled = None"
  from given(3,4) have cards: "?cards \<noteq> []"
    by (cases ?cards) auto
  from given(4) have selected: "selected \<noteq> []"
    by auto
  have reached: "(filled, deck_id h) \<in> set (fst (create_loop h (format_text d) n selected col 0))"
    using given(4,5,6) by (rule create_loop_reaches_every_record)
  obtain col' k' where loop: "create_loop h (format_text d) n selected col 0 = (col', k')"
    by (cases "create_loop h (format_text d) n selected col 0")
  have "snd (create_flashcards h d col) = col'"
    using given(1,2,3) cards selected loop by (simp add: create_flashcards_def Let_def)
  with reached loop show "(filled, deck_id h) \<in> set (snd (create_flashcards h d col))"
    by simp
next
  show "create_flashcards (example_host ''Q2'') example_dialog []
     = (showInfo_created 1,
        [(\<lparr>note_tags = [''physics''], note_fields = [''Q1'', ''A1'', ''Summary'']\<rparr>, 1)])"
    by code_simp
qed

theorem commit_skips_failed_record_witness:
  "generated_flashcards example_dialog \<noteq> [] \<and>
   note_type (example_host ''Q1'') = Inr 3 \<and>
   select_loop example_dialog 0
     (parse_flashcards (format_text example_dialog) (generated_flashcards example_dialog))
     = Inr [Basic ''Q1'' ''A1'', Basic ''Q2'' ''A2''] \<and>
   fill_note (example_host ''Q1'') (format_text example_dialog) 3 (Basic ''Q2'' ''A2'')
     = Inr \<lparr>note_tags = [''physics''], note_fields = [''Q2'', ''A2'', ''Summary'']\<rparr> \<and>
   create_flashcards (example_host ''Q1'') example_dialog []
     = (showInfo_created 1,
        [(\<lparr>note_tags = [''physics''], note_fields = [''Q2'', ''A2'', ''Summary'']\<rparr>, 1)]) \<and>
   (\<lparr>note_tags = [''physics''], note_fields = [''Q2'', ''A2'', ''Summary'']\<rparr>,
    deck_id (example_host ''Q1''))
     \<in> set (snd (create_flashcards (example_host ''Q1'') example_dialog []))"
proof -
  let ?filled = "\<lparr>note_tags = [''physics''], note_fields = [''Q2'', ''A2'', ''Summary'']\<rparr>"
  have g: "generated_flashcards example_dialog \<noteq> []"
    by (simp add: example_dialog_def)
  have t: "note_type (example_host ''Q1'') = Inr 3"
    by (simp add: example_host_def)
  have s: "select_loop example_dialog 0
     (parse_flashcards (format_text example_dialog) (generated_flashcards example_dialog))
     = Inr [Basic ''Q1'' ''A1'', Basic ''Q2'' ''A2'']"
    by code_simp
  have m: "Basic ''Q2'' ''A2'' \<in> set [Basic ''Q1'' ''A1'', Basic ''Q2'' ''A2'']"
    by simp
  have f: "fill_note (example_host ''Q1'') (format_text example_dialog) 3 (Basic ''Q2'' ''A2'')
     = Inr ?filled"
    by code_simp
  have a: "\<forall>c. add_note_raises (example_host ''Q1'') c ?filled = None"
    by (simp add: example_host_def)
  have r: "create_flashcards (example_host ''Q1'') example_dialog []
     = (showInfo_created 1, [(?filled, 1)])"
    by code_simp
  have k: "deck_id (example_host ''Q1'') = 1"
    by (simp add: example_host_def)
  show ?thesis
    using g t s f r a k
      commit_skips_failed_record [of "example_host ''Q1''" example_dialog "[]" 3
        "[Basic ''Q1'' ''A1'', Basic ''Q2'' ''A2'']" "Basic ''Q2'' ''A2''" ?filled]
    by simp
qed

section \<open>The formatter on a text without markup\<close>

lemma split_acc_first:
  "\<exists>others. split_acc sep cur s = (cur @ takeWhile (\<lambda>c. c \<noteq> sep) s) # others"
proof (induction s arbitrary: cur)
  case Nil
  show ?case by simp
next
  case (Cons c cs)
  show ?case
  proof (cases "c = sep")
    case True
    then show ?thesis by simp
  next
    case False
    from Cons.IH [of "cur @ [c]"] False show ?thesis by simp
  qed
qed

lemma first_line_in_split: "takeWhile (\<lambda>c. c \<noteq> nl) s \<in> set (split s nl)"
  using split_acc_first [of nl "[]" s] by (auto simp: split_def)

lemma join_Cons: "xs \<noteq> [] \<Longrightarrow> join sep (x # xs) = x @ sep @ join sep xs"
  by (cases xs) simp_all

lemma join_split_acc: "join [sep] (split_acc sep cur s) = cur @ s"
proof (induction s arbitrary: cur)
  case Nil
  show ?case by simp
next
  case (Cons c cs)
  obtain x others where "split_acc sep [] cs = x # others"
    using split_acc_first [of sep "[]" cs] by blast
  then have "split_acc sep [] cs \<noteq> []"
    by simp
  then show ?case
    using Cons.IH by (simp add: join_Cons)
qed

lemma join_split: "join [nl] (split s nl) = s"
  by (simp add: split_def join_split_acc)

lemma sub_header_plain:
  assumes "\<forall>line \<in> set (split s nl). \<not> startswith line marker"
  shows "sub_header marker open_tag close_tag s = s"
proof -
  have "map (\<lambda>line. if startswith line marker \<and> length marker < length line
                     then open_tag @ drop (length marker) line @ close_tag else line)
          (split s nl) = split s nl"
    using assms by (intro map_idI) simp
  then show ?thesis
    by (simp add: sub_header_def join_split)
qed

lemma sub_span_plain: "d \<notin> set s \<Longrightarrow> sub_span (d # ds) open_tag close_tag s = s"
  by (induction s) (auto simp: startswith_def)

lemma replace_newlines_first_line:
  "\<exists>tail. replace_newlines s = takeWhile (\<lambda>c. c \<noteq> nl) s @ tail \<and>
     (tail = [] \<or> (\<exists>t. tail = CHR ''<'' # t))"
proof (induction s)
  case Nil
  show ?case by (simp add: replace_newlines_def)
next
  case (Cons c cs)
  show ?case
  proof (cases "c = nl")
    case True
    then have "replace_newlines (c # cs) = takeWhile (\<lambda>c. c \<noteq> nl) (c # cs) @ ''<br>'' @ replace_newlines cs"
      by (simp add: replace_newlines_def)
    then show ?thesis by auto
  next
    case False
    then have "replace_newlines (c # cs) = c # replace_newlines cs"
      by (simp add: replace_newlines_def)
    with False Cons.IH show ?thesis by auto
  qed
qed

lemma spaces_then_rest_None:
  assumes "tail = [] \<or> (\<exists>t. tail = CHR ''<'' # t)"
    and "case body of [] \<Rightarrow> True | s # others \<Rightarrow> \<not> isspace s"
  shows "spaces_then_rest (body @ tail) = None"
proof -
  have "\<not> isspace CHR ''<''"
    by (simp add: isspace_def)
  with assms have "takeWhile isspace (body @ tail) = []"
    by (cases body) auto
  then show ?thesis
    by (simp add: spaces_then_rest_def)
qed

lemma takeWhile_stop: "\<forall>x\<in>set ds. P x \<Longrightarrow> \<not> P c \<Longrightarrow> takeWhile P (ds @ c # ys) = ds"
  by (induction ds) auto

lemma dropWhile_stop: "\<forall>x\<in>set ds. P x \<Longrightarrow> \<not> P c \<Longrightarrow> dropWhile P (ds @ c # ys) = c # ys"
  by (induction ds) auto

lemma sub_numbered_plain:
  assumes tail: "tail = [] \<or> (\<exists>t. tail = CHR ''<'' # t)"
    and plain: "\<not> list_marker line"
  shows "sub_numbered (line @ tail) = line @ tail"
proof -
  let ?digits = "takeWhile isdigit line"
  let ?rest = "dropWhile isdigit line"
  have lt: "\<not> isdigit CHR ''<''" and dot: "\<not> isdigit CHR ''.''"
    by (simp_all add: isdigit_def)
  from tail lt have tw_tail: "takeWhile isdigit tail = []" and dw_tail: "dropWhile isdigit tail = tail"
    by auto
  show ?thesis
  proof (cases "?rest")
    case Nil
    then have all: "\<forall>c\<in>set line. isdigit c"
      by (simp add: dropWhile_eq_Nil_conv)
    then have "dropWhile isdigit (line @ tail) = tail"
      using dw_tail by (simp add: dropWhile_append)
    moreover from tail have "\<not> startswith tail ''.''"
      by (auto simp: startswith_def)
    ultimately show ?thesis
      by (simp add: sub_numbered_def Let_def)
  next
    case (Cons c body)
    then have "\<not> isdigit c"
      using hd_dropWhile [of isdigit line] by (metis list.distinct(1) list.sel(1))
    have line: "line = ?digits @ c # body"
      using Cons by (metis takeWhile_dropWhile_id)
    have digits: "\<forall>x\<in>set ?digits. isdigit x"
      by (auto dest: set_takeWhileD)
    have whole: "line @ tail = ?digits @ c # (body @ tail)"
      by (subst line) simp
    have tw: "takeWhile isdigit (line @ tail) = ?digits"
      unfolding whole using digits \<open>\<not> isdigit c\<close> by (rule takeWhile_stop)
    have dw: "dropWhile isdigit (line @ tail) = c # body @ tail"
      unfolding whole using digits \<open>\<not> isdigit c\<close> by (rule dropWhile_stop)
    show ?thesis
    proof (cases "?digits \<noteq> [] \<and> c = CHR ''.''")
      case False
      then show ?thesis
        by (auto simp: sub_numbered_def Let_def tw dw startswith_def)
    next
      case True
      with plain Cons have "case body of [] \<Rightarrow> True | s # others \<Rightarrow> \<not> isspace s"
        by (auto simp: list_marker_def split: list.splits)
      with tail have "spaces_then_rest (body @ tail) = None"
        by (rule spaces_then_rest_None)
      then show ?thesis
        by (simp add: sub_numbered_def Let_def tw dw)
    qed
  qed
qed

lemma sub_bullet_plain:
  assumes tail: "tail = [] \<or> (\<exists>t. tail = CHR ''<'' # t)"
    and plain: "\<not> bullet_marker line"
  shows "sub_bullet (line @ tail) = line @ tail"
proof (cases line)
  case Nil
  with tail show ?thesis
    by (auto simp: sub_bullet_def)
next
  case (Cons c body)
  show ?thesis
  proof (cases "c = CHR ''-'' \<or> c = CHR ''*''")
    case False
    with Cons show ?thesis
      by (simp add: sub_bullet_def)
  next
    case True
    with plain Cons have "case body of [] \<Rightarrow> True | s # others \<Rightarrow> \<not> isspace s"
      by (auto simp: bullet_marker_def split: list.splits)
    with tail have "spaces_then_rest (body @ tail) = None"
      by (rule spaces_then_rest_None)
    with Cons show ?thesis
      by (simp add: sub_bullet_def)
  qed
qed

text \<open>
  C7. The formatter is total: its model is a function with a value for every text,
  none of its steps can fail, and the one scan that is not structural is proved to
  terminate. For every text without markup tokens the output is the input with each
  newline replaced by the line break \<open><br>\<close>, and nothing else changed.
\<close>

theorem render_plain_text:
  assumes "no_markup s"
  shows "convert_markdown_to_html s = concat (map (\<lambda>c. if c = nl then ''<br>'' else [c]) s)"
proof -
  from assms have lines: "\<forall>line \<in> set (split s nl).
      \<not> startswith line ''# '' \<and> \<not> startswith line ''## '' \<and> \<not> startswith line ''### '' \<and>
      \<not> list_marker line \<and> \<not> bullet_marker line"
    and star: "CHR ''*'' \<notin> set s" and quote: "CHR ''`'' \<notin> set s"
    by (simp_all add: no_markup_def header_marker_def)
  have h3: "sub_header ''### '' a b s = s" for a b
    using lines by (intro sub_header_plain) blast
  have h2: "sub_header ''## '' a b s = s" for a b
    using lines by (intro sub_header_plain) blast
  have h1: "sub_header ''# '' a b s = s" for a b
    using lines by (intro sub_header_plain) blast
  have bold: "sub_span ''**'' a b s = s" for a b
    using star by (rule sub_span_plain)
  have italic: "sub_span ''*'' a b s = s" for a b
    using star by (rule sub_span_plain)
  have code: "sub_span ''`'' a b s = s" for a b
    using quote by (rule sub_span_plain)
  let ?line = "takeWhile (\<lambda>c. c \<noteq> nl) s"
  obtain tail where
    shape: "replace_newlines s = ?line @ tail" and
    tail: "tail = [] \<or> (\<exists>t. tail = CHR ''<'' # t)"
    using replace_newlines_first_line [of s] by blast
  from lines have "\<not> list_marker ?line" and "\<not> bullet_marker ?line"
    using first_line_in_split [of s] by blast+
  then have "sub_numbered (?line @ tail) = ?line @ tail"
    and "sub_bullet (?line @ tail) = ?line @ tail"
    using tail by (simp_all add: sub_numbered_plain sub_bullet_plain)
  then have "convert_markdown_to_html s = replace_newlines s"
    by (simp add: convert_markdown_to_html_def h3 h2 h1 bold italic code shape)
  then show ?thesis
    by (simp add: replace_newlines_def)
qed

theorem render_plain_text_witness:
  "no_markup ''Heat flows from hot to cold.\<newline>It never flows back.'' \<and>
   convert_markdown_to_html ''Heat flows from hot to cold.\<newline>It never flows back.''
     = ''Heat flows from hot to cold.<br>It never flows back.''"
proof -
  have p: "no_markup ''Heat flows from hot to cold.\<newline>It never flows back.''"
    by code_simp
  have r: "concat (map (\<lambda>c. if c = nl then ''<br>'' else [c])
             ''Heat flows from hot to cold.\<newline>It never flows back.'')
           = ''Heat flows from hot to cold.<br>It never flows back.''"
    by code_simp
  show ?thesis
    using p r render_plain_text [OF p] by simp
qed

end
